theory Spec2Isabelle
  imports Complex_Main
begin

section \<open>PianoAudioEngine: voices, polyphony and the sustain pedal\<close>

text \<open>
  A note identifier is a string such as \<open>''C#5''\<close>. The synthesizer is a black box:
  \<open>createPianoSound\<close> starts one oscillator at the given frequency and hands back a sound
  object whose \<open>stop\<close> capability starts the release envelope. A sound object is identified
  by the position of its oscillator in the list of all oscillators started so far; the
  voices whose \<open>stop\<close> has been called are collected in \<open>stopped\<close>.

  \<open>activeNotes\<close> is the JavaScript \<open>Map\<close> from note identifier to sound object,
  \<open>sustainedNotes\<close> the JavaScript \<open>Set\<close>, kept in insertion order without duplicates.
\<close>

type_synonym note_id = string
type_synonym voice = nat

record engine =
  activeNotes :: "note_id \<rightharpoonup> voice"
  sustainActive :: bool
  sustainedNotes :: "note_id list"
  oscillators :: "real list"
  stopped :: "voice set"

definition noteFrequencies :: "(note_id \<times> real) list" where
  "noteFrequencies =
    [(''C4'', 261.63), (''C#4'', 277.18), (''D4'', 293.66), (''D#4'', 311.13),
     (''E4'', 329.63), (''F4'', 349.23), (''F#4'', 369.99), (''G4'', 392.00),
     (''G#4'', 415.30), (''A4'', 440.00), (''A#4'', 466.16), (''B4'', 493.88),
     (''C5'', 523.25), (''C#5'', 554.37), (''D5'', 587.33), (''D#5'', 622.25),
     (''E5'', 659.25)]"

definition newEngine :: engine where
  "newEngine = \<lparr>activeNotes = Map.empty, sustainActive = False, sustainedNotes = [],
                 oscillators = [], stopped = {}\<rparr>"

text \<open>\<open>Set.prototype.add\<close>: a member already present keeps its place.\<close>

definition set_add :: "'a \<Rightarrow> 'a list \<Rightarrow> 'a list" where
  "set_add x xs = (if x \<in> set xs then xs else xs @ [x])"

text \<open>\<open>createPianoSound(frequency)\<close>: starts a new oscillator and returns its sound object.\<close>

definition createPianoSound :: "real \<Rightarrow> engine \<Rightarrow> voice \<times> engine" where
  "createPianoSound frequency e =
     (length (oscillators e), e\<lparr>oscillators := oscillators e @ [frequency]\<rparr>)"

text \<open>\<open>sound.stop()\<close> of the sound object \<open>v\<close>.\<close>

definition sound_stop :: "voice \<Rightarrow> engine \<Rightarrow> engine" where
  "sound_stop v e = e\<lparr>stopped := insert v (stopped e)\<rparr>"

text \<open>
  The body shared by \<open>stopNote\<close> (below its sustain test) and by the callback of
  \<open>setSustain\<close>: \<open>const sound = activeNotes.get(note); if (sound) { sound.stop();
  activeNotes.delete(note); }\<close>.
\<close>

definition stop_and_delete :: "note_id \<Rightarrow> engine \<Rightarrow> engine" where
  "stop_and_delete n e =
     (case activeNotes e n of
        None \<Rightarrow> e
      | Some sound \<Rightarrow> (sound_stop sound e)\<lparr>activeNotes := (activeNotes e)(n := None)\<rparr>)"

definition stopNote :: "note_id \<Rightarrow> engine \<Rightarrow> engine" where
  "stopNote n e =
     (if sustainActive e then e\<lparr>sustainedNotes := set_add n (sustainedNotes e)\<rparr>
      else stop_and_delete n e)"

text \<open>
  \<open>playNote\<close>: the first line returns when \<open>noteFrequencies[note]\<close> is falsy (absent
  from the table, or zero). Resuming a suspended audio context touches none of the fields
  of the model. The sound object that \<open>playNote\<close> returns is the one it stores.
\<close>

definition playNote :: "note_id \<Rightarrow> engine \<Rightarrow> engine" where
  "playNote n e =
     (case map_of noteFrequencies n of
        None \<Rightarrow> e
      | Some frequency \<Rightarrow>
          if frequency = 0 then e
          else
            let e1 = (if activeNotes e n \<noteq> None then stopNote n e else e);
                (sound, e2) = createPianoSound frequency e1
            in e2\<lparr>activeNotes := (activeNotes e2)(n \<mapsto> sound)\<rparr>)"

definition setSustain :: "bool \<Rightarrow> engine \<Rightarrow> engine" where
  "setSustain active e =
     (let e1 = e\<lparr>sustainActive := active\<rparr>
      in if \<not> active
         then (fold stop_and_delete (sustainedNotes e1) e1)\<lparr>sustainedNotes := []\<rparr>
         else e1)"

text \<open>The voices that sound at a frequency: oscillators started there and never stopped.\<close>

definition liveVoices :: "real \<Rightarrow> engine \<Rightarrow> voice list" where
  "liveVoices frequency e =
     filter (\<lambda>v. oscillators e ! v = frequency \<and> v \<notin> stopped e) [0..<length (oscillators e)]"

text \<open>The operations of the voice manager, and runs of them from a fresh engine.\<close>

datatype vm_op = Press note_id | Release note_id | SetSustain bool

fun vm_apply :: "vm_op \<Rightarrow> engine \<Rightarrow> engine" where
  "vm_apply (Press n) e = playNote n e"
| "vm_apply (Release n) e = stopNote n e"
| "vm_apply (SetSustain b) e = setSustain b e"

definition vm_run :: "vm_op list \<Rightarrow> engine \<Rightarrow> engine" where
  "vm_run ops e = fold vm_apply ops e"

definition held_only_under_sustain :: "engine \<Rightarrow> bool" where
  "held_only_under_sustain e = (sustainActive e \<or> sustainedNotes e = [])"

definition held_example :: engine where
  "held_example = vm_run [SetSustain True, Press ''C4'', Release ''C4''] newEngine"


section \<open>RecordingEngine: timestamped capture and replay\<close>

text \<open>
  A recorded event is the object \<open>{note, timestamp, isPress}\<close>; \<open>timestamp\<close> is the offset
  from the start of the recording in milliseconds. Every function that reads \<open>Date.now()\<close>
  takes the reading as its first argument.
\<close>

datatype 'n key_call = PressKey 'n | ReleaseKey 'n

record recordedEvent =
  ev_note :: note_id
  timestamp :: int
  isPress :: bool

record recorder =
  recording :: bool
  recordedNotes :: "recordedEvent list"
  startTime :: int

definition newRecorder :: recorder where
  "newRecorder = \<lparr>recording = False, recordedNotes = [], startTime = 0\<rparr>"

definition startRecording :: "int \<Rightarrow> recorder \<Rightarrow> recorder" where
  "startRecording now r = r\<lparr>recording := True, recordedNotes := [], startTime := now\<rparr>"

definition stopRecording :: "recorder \<Rightarrow> recorder" where
  "stopRecording r = r\<lparr>recording := False\<rparr>"

definition recordNote :: "int \<Rightarrow> note_id \<Rightarrow> bool \<Rightarrow> recorder \<Rightarrow> recorder" where
  "recordNote now n p r =
     (if \<not> recording r then r
      else r\<lparr>recordedNotes := recordedNotes r @
               [\<lparr>ev_note = n, timestamp = now - startTime r, isPress = p\<rparr>]\<rparr>)"

text \<open>A recording session: \<open>startRecording\<close> at \<open>t\<close>, then one \<open>recordNote\<close> per entry.\<close>

definition record_session :: "int \<Rightarrow> (int \<times> note_id \<times> bool) list \<Rightarrow> recorder" where
  "record_session t evs =
     fold (\<lambda>(now, n, p). recordNote now n p) evs (startRecording t newRecorder)"

text \<open>The call on the sink that replays an event.\<close>

definition call_of :: "recordedEvent \<Rightarrow> note_id key_call" where
  "call_of event = (if isPress event then PressKey (ev_note event) else ReleaseKey (ev_note event))"

text \<open>
  \<open>setTimeout(resolve, delay)\<close> takes its delay as a signed 32-bit integer: the number is
  reduced modulo \<open>2^32\<close> into the range from \<open>-2^31\<close> to \<open>2^31 - 1\<close>, and a negative
  result counts as 0. \<open>timer_delay delay\<close> is the time the timer waits at least.
\<close>

definition timer_delay :: "int \<Rightarrow> int" where
  "timer_delay delay =
     (let timeout = (delay + 2 ^ 31) mod 2 ^ 32 - 2 ^ 31
      in if timeout < 0 then 0 else timeout)"

text \<open>
  The sink of \<open>playback(piano)\<close> is the piano of the page. Its \<open>pressKey(note)\<close> calls
  \<open>recordNote(note, true)\<close> and its \<open>releaseKey(note)\<close> calls \<open>recordNote(note, false)\<close> on
  the same recorder; \<open>now\<close> is the reading of \<open>Date.now()\<close> in that call. What else the piano
  does with the call (sound, display) is outside the recorder.
\<close>

definition sink_call :: "int \<Rightarrow> recordedEvent \<Rightarrow> recorder \<Rightarrow> recorder" where
  "sink_call now event r = recordNote now (ev_note event) (isPress event) r"

text \<open>
  \<open>playback(piano)\<close>. The loop \<open>for (const event of this.recordedNotes)\<close> walks the array
  itself, not a copy: before each step it compares its index \<open>i\<close> with the current length,
  so it also reaches the events that the sink appends while the loop runs. The loop need not
  end, and \<open>None\<close> is the result of a playback that never returns. \<open>trace\<close> collects the
  calls made on the sink, each with the clock reading at which it is made.

  The wall clock is explicit. For the step \<open>i\<close>, \<open>env i = (busy, late, lag)\<close>: \<open>busy\<close>
  milliseconds pass between the previous clock reading and \<open>Date.now()\<close> of this step, an
  awaited timer resumes \<open>late\<close> milliseconds after the delay it was given, and \<open>lag\<close>
  milliseconds pass between the call on the sink and \<open>Date.now()\<close> in \<open>recordNote\<close>.
  All three are natural numbers: time does not run backwards and a timer does not fire
  before the delay it was given. Playback runs alone: the page handles no other event
  while the loop waits.
\<close>

partial_function (option) playback_loop ::
  "int \<Rightarrow> (nat \<Rightarrow> nat \<times> nat \<times> nat) \<Rightarrow> nat \<Rightarrow> int \<Rightarrow> recorder \<Rightarrow>
   (int \<times> note_id key_call) list \<Rightarrow> (int \<times> note_id key_call) list option" where
  "playback_loop start env i clock r trace =
     (if i < length (recordedNotes r) then
        (let event = recordedNotes r ! i;
             targetTime = start + timestamp event;
             now = clock + int (fst (env i));
             delay = targetTime - now;
             fired = (if delay > 0 then now + timer_delay delay + int (fst (snd (env i))) else now);
             recorded = fired + int (snd (snd (env i)))
         in playback_loop start env (Suc i) recorded (sink_call recorded event r)
              (trace @ [(fired, call_of event)]))
      else Some trace)"

definition playback ::
  "int \<Rightarrow> (nat \<Rightarrow> nat \<times> nat \<times> nat) \<Rightarrow> recorder \<Rightarrow> (int \<times> note_id key_call) list option" where
  "playback now env r =
     (if length (recordedNotes r) = 0 then Some []
      else playback_loop now env 0 now r [])"

text \<open>
  What the loop computes from step \<open>i\<close> on while the array stays as it is (the recorder is
  not recording): the calls for the remaining events. Lemma \<open>playback_loop_idle\<close> below
  relates it to \<open>playback_loop\<close>.
\<close>

fun replay ::
  "int \<Rightarrow> (nat \<Rightarrow> nat \<times> nat \<times> nat) \<Rightarrow> nat \<Rightarrow> int \<Rightarrow> recordedEvent list \<Rightarrow> (int \<times> note_id key_call) list" where
  "replay start env i clock [] = []"
| "replay start env i clock (event # rest) =
     (let targetTime = start + timestamp event;
          now = clock + int (fst (env i));
          delay = targetTime - now;
          fired = (if delay > 0 then now + timer_delay delay + int (fst (snd (env i))) else now);
          recorded = fired + int (snd (snd (env i)))
      in (fired, call_of event) # replay start env (Suc i) recorded rest)"

text \<open>
  Example recorders: the recording [(C4, press, 0), (C4, release, 500)] after
  \<open>stopRecording\<close>; a recorder that is still recording, with one recorded press; a stopped
  recording whose only event has the offset \<open>2^31\<close> ms.
\<close>

definition c4_recording :: recorder where
  "c4_recording = newRecorder\<lparr>recordedNotes :=
     [\<lparr>ev_note = ''C4'', timestamp = 0, isPress = True\<rparr>,
      \<lparr>ev_note = ''C4'', timestamp = 500, isPress = False\<rparr>]\<rparr>"

definition live_recording :: recorder where
  "live_recording = recordNote 40 ''C4'' True (startRecording 40 newRecorder)"

definition long_recording :: recorder where
  "long_recording = newRecorder\<lparr>recordedNotes :=
     [\<lparr>ev_note = ''C4'', timestamp = 2147483648, isPress = True\<rparr>]\<rparr>"


section \<open>AIComposer: the music-theory tables\<close>

text \<open>
  A mood configuration names its scale, chord progression and rhythm in the tables of
  \<open>musicTheory\<close>. The fields \<open>name\<close>, \<open>dynamics\<close> and \<open>description\<close> are display texts
  that no function below reads; they are left out. Every table is a JavaScript object
  literal, listed here in the order of its keys.
\<close>

record moodConfig =
  scale :: string
  progression :: string
  rhythm :: string
  tempo :: nat
  pattern :: string

definition chordProgressions :: "(string \<times> note_id list list) list" where
  "chordProgressions =
    [(''happy'', [[''C4'', ''E4'', ''G4''], [''F4'', ''A4'', ''C5''], [''G4'', ''B4'', ''D5''], [''C4'', ''E4'', ''G4'']]),
     (''sad'', [[''C4'', ''D#4'', ''G4''], [''G#4'', ''C5'', ''D#5''], [''F4'', ''G#4'', ''C5''], [''C4'', ''D#4'', ''G4'']]),
     (''peaceful'', [[''C4'', ''E4'', ''G4''], [''G4'', ''B4'', ''D5''], [''A4'', ''C5'', ''E5''], [''F4'', ''A4'', ''C5'']]),
     (''energetic'', [[''C4'', ''E4'', ''G4''], [''D4'', ''F#4'', ''A4''], [''G4'', ''B4'', ''D5''], [''C4'', ''E4'', ''G4'']]),
     (''mysterious'', [[''C4'', ''D#4'', ''F#4''], [''D4'', ''F4'', ''G#4''], [''C4'', ''E4'', ''G#4''], [''C4'', ''D#4'', ''F#4'']]),
     (''romantic'', [[''C4'', ''E4'', ''G4''], [''A4'', ''C5'', ''E5''], [''F4'', ''A4'', ''C5''], [''G4'', ''B4'', ''D5'']]),
     (''epic'', [[''C4'', ''E4'', ''G4''], [''D4'', ''F#4'', ''A4''], [''E4'', ''G#4'', ''B4''], [''C4'', ''E4'', ''G4'']])]"

definition scales :: "(string \<times> note_id list) list" where
  "scales =
    [(''major'', [''C4'', ''D4'', ''E4'', ''F4'', ''G4'', ''A4'', ''B4'', ''C5'', ''D5'', ''E5'']),
     (''minor'', [''C4'', ''D4'', ''D#4'', ''F4'', ''G4'', ''G#4'', ''A#4'', ''C5'', ''D5'', ''D#5'']),
     (''pentatonic'', [''C4'', ''D4'', ''E4'', ''G4'', ''A4'', ''C5'', ''D5'', ''E5'']),
     (''blues'', [''C4'', ''D#4'', ''F4'', ''F#4'', ''G4'', ''A#4'', ''C5'', ''D#5'']),
     (''harmonic'', [''C4'', ''D4'', ''D#4'', ''F4'', ''G4'', ''G#4'', ''B4'', ''C5'']),
     (''chromatic'', [''C4'', ''C#4'', ''D4'', ''D#4'', ''E4'', ''F4'', ''F#4'', ''G4'', ''G#4'', ''A4'',
                      ''A#4'', ''B4'', ''C5''])]"

definition rhythms :: "(string \<times> nat list) list" where
  "rhythms =
    [(''slow'', [800, 1200, 800, 1600]),
     (''moderate'', [400, 600, 400, 800]),
     (''fast'', [200, 300, 200, 400]),
     (''flowing'', [500, 500, 500, 500]),
     (''syncopated'', [300, 200, 500, 400])]"

definition moodConfigs :: "(string \<times> moodConfig) list" where
  "moodConfigs =
    [(''spring'', \<lparr>scale = ''pentatonic'', progression = ''happy'', rhythm = ''moderate'', tempo = 450, pattern = ''ascending''\<rparr>),
     (''summer'', \<lparr>scale = ''major'', progression = ''energetic'', rhythm = ''fast'', tempo = 350, pattern = ''playful''\<rparr>),
     (''autumn'', \<lparr>scale = ''minor'', progression = ''sad'', rhythm = ''slow'', tempo = 600, pattern = ''descending''\<rparr>),
     (''winter'', \<lparr>scale = ''harmonic'', progression = ''peaceful'', rhythm = ''slow'', tempo = 700, pattern = ''sparse''\<rparr>),
     (''rain'', \<lparr>scale = ''blues'', progression = ''sad'', rhythm = ''flowing'', tempo = 500, pattern = ''cascading''\<rparr>),
     (''storm'', \<lparr>scale = ''chromatic'', progression = ''mysterious'', rhythm = ''syncopated'', tempo = 300, pattern = ''chaotic''\<rparr>),
     (''sunrise'', \<lparr>scale = ''major'', progression = ''happy'', rhythm = ''slow'', tempo = 550, pattern = ''ascending''\<rparr>),
     (''night'', \<lparr>scale = ''pentatonic'', progression = ''peaceful'', rhythm = ''slow'', tempo = 800, pattern = ''gentle''\<rparr>),
     (''joy'', \<lparr>scale = ''major'', progression = ''happy'', rhythm = ''fast'', tempo = 300, pattern = ''jumping''\<rparr>),
     (''sadness'', \<lparr>scale = ''minor'', progression = ''sad'', rhythm = ''slow'', tempo = 900, pattern = ''descending''\<rparr>),
     (''romantic'', \<lparr>scale = ''major'', progression = ''romantic'', rhythm = ''moderate'', tempo = 500, pattern = ''flowing''\<rparr>),
     (''epic'', \<lparr>scale = ''major'', progression = ''epic'', rhythm = ''syncopated'', tempo = 400, pattern = ''heroic''\<rparr>)]"


section \<open>AIComposer: analyzeMood\<close>

text \<open>
  Strings are lists of 8-bit characters. \<open>toLowerCase\<close> maps the letters \<open>A\<close> to \<open>Z\<close> to
  their lower case and leaves every other character as it is. \<open>js_includes text word\<close> is
  \<open>text.includes(word)\<close>: \<open>word\<close> occurs in \<open>text\<close> as a contiguous substring.
\<close>

definition lower_char :: "char \<Rightarrow> char" where
  "lower_char c =
     (case map_of (zip ''ABCDEFGHIJKLMNOPQRSTUVWXYZ'' ''abcdefghijklmnopqrstuvwxyz'') c of
        Some d \<Rightarrow> d
      | None \<Rightarrow> c)"

definition toLowerCase :: "string \<Rightarrow> string" where
  "toLowerCase s = map lower_char s"

fun startsWith :: "string \<Rightarrow> string \<Rightarrow> bool" where
  "startsWith text [] = True"
| "startsWith [] (w # ws) = False"
| "startsWith (c # cs) (w # ws) = (c = w \<and> startsWith cs ws)"

fun js_includes :: "string \<Rightarrow> string \<Rightarrow> bool" where
  "js_includes [] word = (word = [])"
| "js_includes (c # cs) word = (startsWith (c # cs) word \<or> js_includes cs word)"

text \<open>The table \<open>keywords\<close> of \<open>analyzeMood\<close>.\<close>

definition moodKeywords :: "(string \<times> string list) list" where
  "moodKeywords =
    [(''spring'', [''spring'', ''bloom'', ''flower'', ''fresh'', ''renewal'']),
     (''summer'', [''summer'', ''sun'', ''bright'', ''warm'', ''vibrant'']),
     (''autumn'', [''autumn'', ''fall'', ''melancholy'', ''nostalgic'', ''leaves'']),
     (''winter'', [''winter'', ''snow'', ''cold'', ''serene'', ''quiet'']),
     (''rain'', [''rain'', ''drizzle'', ''wet'', ''drops'']),
     (''storm'', [''storm'', ''thunder'', ''lightning'', ''intense'', ''dramatic'']),
     (''sunrise'', [''sunrise'', ''dawn'', ''morning'', ''hope'', ''beginning'']),
     (''night'', [''night'', ''evening'', ''dark'', ''peaceful'', ''calm'']),
     (''joy'', [''joy'', ''happy'', ''cheerful'', ''excited'', ''celebration'']),
     (''sadness'', [''sad'', ''sorrow'', ''grief'', ''lonely'', ''depressed'']),
     (''romantic'', [''love'', ''romantic'', ''passion'', ''tender'', ''affection'']),
     (''epic'', [''epic'', ''heroic'', ''grand'', ''adventure'', ''battle''])]"

text \<open>\<open>words.filter(word => text.includes(word)).length\<close>\<close>

definition score :: "string \<Rightarrow> string list \<Rightarrow> nat" where
  "score text words = length (filter (\<lambda>word. js_includes text word) words)"

text \<open>
  The loop over \<open>Object.entries(keywords)\<close>, with the variables \<open>bestMatch\<close> and
  \<open>maxScore\<close> as arguments.
\<close>

fun bestMatchLoop :: "(string \<times> string list) list \<Rightarrow> string \<Rightarrow> string \<Rightarrow> nat \<Rightarrow> string" where
  "bestMatchLoop [] text bestMatch maxScore = bestMatch"
| "bestMatchLoop ((mood, words) # rest) text bestMatch maxScore =
     (if score text words > maxScore
      then bestMatchLoop rest text mood (score text words)
      else bestMatchLoop rest text bestMatch maxScore)"

definition analyzeMood :: "string \<Rightarrow> string" where
  "analyzeMood moodText = bestMatchLoop moodKeywords (toLowerCase moodText) ''peaceful'' 0"

text \<open>The score of the \<open>i\<close>-th mood of the keyword table on a text already in lower case.\<close>

definition moodScore :: "string \<Rightarrow> nat \<Rightarrow> nat" where
  "moodScore text i = score text (snd (moodKeywords ! i))"


section \<open>AIComposer: generateMelody\<close>

text \<open>
  \<open>js_at xs i\<close> is the read \<open>xs[i]\<close> of an array: \<open>None\<close> (JavaScript's \<open>undefined\<close>)
  outside the array. \<open>js_or a b\<close> is \<open>a || b\<close> on strings that may be undefined: the empty
  string and \<open>undefined\<close> are falsy.

  The draws of \<open>Math.random()\<close> are an argument: \<open>rnd i\<close> is the draw made in the
  iteration \<open>i\<close> of the loop (every loop makes one draw per iteration). \<open>Math.random()\<close>
  returns a number \<open>r\<close> with \<open>0 \<le> r < 1\<close>; numbers are real numbers here.
\<close>

definition js_at :: "'a list \<Rightarrow> int \<Rightarrow> 'a option" where
  "js_at xs i = (if 0 \<le> i \<and> i < int (length xs) then Some (xs ! nat i) else None)"

definition js_or :: "string option \<Rightarrow> string option \<Rightarrow> string option" where
  "js_or a b = (case a of None \<Rightarrow> b | Some s \<Rightarrow> if s = [] then b else Some s)"

text \<open>
  The loop of the patterns \<open>gentle\<close> and \<open>flowing\<close>: \<open>k\<close> iterations are left, \<open>i\<close> is
  the loop counter, \<open>currentIndex\<close> the walking index.
\<close>

fun gentle_walk :: "int \<Rightarrow> nat \<Rightarrow> nat \<Rightarrow> (nat \<Rightarrow> real) \<Rightarrow> int \<Rightarrow> int list" where
  "gentle_walk len 0 i rnd currentIndex = []"
| "gentle_walk len (Suc k) i rnd currentIndex =
     currentIndex #
     gentle_walk len k (Suc i) rnd
       (max 0 (min (len - 1) (currentIndex + (if rnd i > 0.5 then 1 else - 1))))"

text \<open>
  The indices at which \<open>generateMelody\<close> reads the scale, in the order of the reads, for a
  scale of length \<open>len\<close>: one branch per \<open>case\<close> of the \<open>switch\<close>, the last one its
  \<open>default\<close>. For \<open>heroic\<close> these are the indices of the nine pushed elements (the
  operand \<open>scale[7]\<close> of \<open>||\<close> reads an index that is in the list already).
\<close>

definition melodyIndices :: "string \<Rightarrow> int \<Rightarrow> (nat \<Rightarrow> real) \<Rightarrow> int list" where
  "melodyIndices pat len rnd =
     (if pat = ''ascending'' then map (\<lambda>i. min (int i) (len - 1)) [0..<8]
      else if pat = ''descending'' then map (\<lambda>i. min (int i) (len - 1)) (rev [0..<8])
      else if pat = ''playful'' then
        map (\<lambda>i. max 0 (min (len - 1) (int i + (\<lfloor>rnd i * 4\<rfloor> - 2)))) [0..<8]
      else if pat = ''cascading'' then map (\<lambda>i. \<lfloor>rnd i * of_int len\<rfloor>) [0..<8]
      else if pat = ''chaotic'' then map (\<lambda>i. \<lfloor>rnd i * of_int len\<rfloor>) [0..<8]
      else if pat = ''gentle'' \<or> pat = ''flowing'' then gentle_walk len 8 0 rnd (len div 2)
      else if pat = ''jumping'' then map (\<lambda>i. \<lfloor>rnd i * of_int len\<rfloor>) [0..<8]
      else if pat = ''heroic'' then [0, 2, 4, 7, 9, 7, 4, 2, 0]
      else if pat = ''sparse'' then map (\<lambda>i. int i * 2) [0..<4]
      else map (\<lambda>i. \<lfloor>rnd i * of_int len\<rfloor>) [0..<8])"

text \<open>
  The melody: an array of reads of the scale. Only \<open>heroic\<close> pushes something other than
  \<open>scale[index]\<close>, namely \<open>scale[9] || scale[7]\<close> as its fifth element.
\<close>

definition generateMelodyOn :: "note_id list \<Rightarrow> string \<Rightarrow> (nat \<Rightarrow> real) \<Rightarrow> note_id option list" where
  "generateMelodyOn sc pat rnd =
     (if pat = ''heroic'' then
        [js_at sc 0, js_at sc 2, js_at sc 4, js_at sc 7, js_or (js_at sc 9) (js_at sc 7),
         js_at sc 7, js_at sc 4, js_at sc 2, js_at sc 0]
      else map (js_at sc) (melodyIndices pat (int (length sc)) rnd))"

text \<open>
  \<open>generateMelody(config)\<close>: \<open>None\<close> when the configuration names no scale of the table
  (every branch then reads a property of \<open>undefined\<close>, a TypeError).
\<close>

definition generateMelody :: "moodConfig \<Rightarrow> (nat \<Rightarrow> real) \<Rightarrow> note_id option list option" where
  "generateMelody config rnd =
     (case map_of scales (scale config) of
        None \<Rightarrow> None
      | Some sc \<Rightarrow> Some (generateMelodyOn sc (pattern config) rnd))"


section \<open>AIComposer: compose, the scheduling loop and stop\<close>

text \<open>
  The composer runs on the event loop of the page. The model keeps the part of the loop
  the composer touches inside its state: \<open>timers\<close> are the pending timers
  (handle, delay in milliseconds, callback) in the order they were set, \<open>nextTimer\<close> is
  the handle the next \<open>setTimeout\<close> returns (handles are positive integers), and \<open>calls\<close>
  logs the calls the composer has made on its piano.

  The callback \<open>playNextNote\<close> is a closure over the cursors \<open>melodyIndex\<close>,
  \<open>chordIndex\<close> and \<open>rhythmIndex\<close> of its \<open>playComposition\<close>; only \<open>playNextNote\<close>
  itself writes them, so a pending tick carries their values. An element of a melody may
  be \<open>undefined\<close>, so the piano is called with a \<open>note_id option\<close>.
\<close>

datatype callback =
    PlayNextNote nat nat nat
  | PressChordNote note_id
  | ReleaseMelodyNote "note_id option"

record composition =
  melody :: "note_id option list"
  chords :: "note_id list list option"
  rhythmPattern :: "nat list option"
  comp_tempo :: nat

record composer =
  isPlaying :: bool
  intervalId :: "nat option"
  currentMood :: "moodConfig option"
  currentComposition :: "composition option"
  timers :: "(nat \<times> real \<times> callback) list"
  nextTimer :: nat
  calls :: "note_id option key_call list"

definition newComposer :: composer where
  "newComposer = \<lparr>isPlaying = False, intervalId = None, currentMood = None,
                   currentComposition = None, timers = [], nextTimer = 1, calls = []\<rparr>"

definition setTimeout :: "callback \<Rightarrow> real \<Rightarrow> composer \<Rightarrow> nat \<times> composer" where
  "setTimeout cb delay s =
     (nextTimer s, s\<lparr>timers := timers s @ [(nextTimer s, delay, cb)], nextTimer := Suc (nextTimer s)\<rparr>)"

definition clearTimeout :: "nat \<Rightarrow> composer \<Rightarrow> composer" where
  "clearTimeout h s = s\<lparr>timers := filter (\<lambda>t. fst t \<noteq> h) (timers s)\<rparr>"

definition pressKey :: "note_id option \<Rightarrow> composer \<Rightarrow> composer" where
  "pressKey n s = s\<lparr>calls := calls s @ [PressKey n]\<rparr>"

definition releaseKey :: "note_id option \<Rightarrow> composer \<Rightarrow> composer" where
  "releaseKey n s = s\<lparr>calls := calls s @ [ReleaseKey n]\<rparr>"

text \<open>
  \<open>stop()\<close>. \<open>if (this.intervalId)\<close> holds for a handle other than \<open>null\<close> and \<open>0\<close>.
\<close>

definition stop :: "composer \<Rightarrow> composer" where
  "stop s =
     (let s1 = s\<lparr>isPlaying := False\<rparr>;
          s2 = (case intervalId s1 of
                  None \<Rightarrow> s1
                | Some h \<Rightarrow> if h = 0 then s1 else (clearTimeout h s1)\<lparr>intervalId := None\<rparr>)
      in s2\<lparr>currentMood := None\<rparr>)"

text \<open>The test \<open>Math.random() > 0.7\<close> on the draw \<open>r\<close> of a tick.\<close>

definition chordTriggered :: "real \<Rightarrow> bool" where
  "chordTriggered r = (r > 0.7)"

text \<open>
  \<open>chord.forEach(...)\<close>: a timer of 50 ms for each note of the chord other than the melody
  note.
\<close>

definition scheduleChord :: "note_id option \<Rightarrow> note_id list \<Rightarrow> composer \<Rightarrow> composer" where
  "scheduleChord n chord s =
     fold (\<lambda>chordNote st.
             if Some chordNote \<noteq> n then snd (setTimeout (PressChordNote chordNote) 50 st) else st)
       chord s"

text \<open>
  The chord part of a tick, giving the state and the chord cursor after it; \<open>None\<close> where
  JavaScript throws a TypeError (no chord table, or no chord at the cursor), which ends the
  callback in the state reached so far.
\<close>

definition chordStep ::
  "real \<Rightarrow> note_id option \<Rightarrow> nat \<Rightarrow> composition \<Rightarrow> composer \<Rightarrow> (composer \<times> nat) option" where
  "chordStep r n chordIndex c s =
     (if chordTriggered r then
        (case chords c of
           None \<Rightarrow> None
         | Some chs \<Rightarrow>
             if chordIndex < length chs
             then Some (scheduleChord n (chs ! chordIndex) s, (chordIndex + 1) mod length chs)
             else None)
      else Some (s, chordIndex))"

text \<open>
  One tick: the callback \<open>playNextNote\<close> with the draw \<open>r\<close> of its \<open>Math.random()\<close> and
  the cursors of its closure. The branches that return the state reached so far (no
  composition, no rhythm table, a cursor outside its array) stand for runs that JavaScript
  ends with a TypeError or continues with \<open>NaN\<close>; \<open>compose\<close> never builds such a
  composition (lemmas \<open>compose_first_tick\<close> and \<open>compose_wellformed\<close> below).
\<close>

definition playNextNote :: "real \<Rightarrow> nat \<Rightarrow> nat \<Rightarrow> nat \<Rightarrow> composer \<Rightarrow> composer" where
  "playNextNote r melodyIndex chordIndex rhythmIndex s =
     (if \<not> isPlaying s then s
      else case currentComposition s of
        None \<Rightarrow> s
      | Some c \<Rightarrow>
          let n = (if melodyIndex < length (melody c) then melody c ! melodyIndex else None);
              s1 = pressKey n s
          in case chordStep r n chordIndex c s1 of
               None \<Rightarrow> s1
             | Some (s2, chordIndex') \<Rightarrow>
                 (case rhythmPattern c of
                    None \<Rightarrow> s2
                  | Some rh \<Rightarrow>
                      if rhythmIndex < length rh then
                        let duration = rh ! rhythmIndex;
                            s3 = snd (setTimeout (ReleaseMelodyNote n) (real duration * 0.8) s2);
                            melodyIndex' = (melodyIndex + 1) mod length (melody c);
                            rhythmIndex' = (rhythmIndex + 1) mod length rh;
                            (h, s4) = setTimeout (PlayNextNote melodyIndex' chordIndex' rhythmIndex')
                                        (real duration) s3
                        in s4\<lparr>intervalId := Some h\<rparr>
                      else s2))"

text \<open>\<open>playComposition()\<close>: fresh cursors, and the first tick at once.\<close>

definition playComposition :: "real \<Rightarrow> composer \<Rightarrow> composer" where
  "playComposition r s = playNextNote r 0 0 0 s"

text \<open>
  \<open>compose(moodKey)\<close>; \<open>rnd\<close> are the draws of \<open>generateMelody\<close>, \<open>r\<close> is the draw of the
  first tick. Where \<open>generateMelody\<close> throws, the call ends in the state reached so far.
\<close>

definition compose :: "string \<Rightarrow> (nat \<Rightarrow> real) \<Rightarrow> real \<Rightarrow> composer \<Rightarrow> composer" where
  "compose moodKey rnd r s =
     (let s1 = (if isPlaying s then stop s else s)
      in case map_of moodConfigs moodKey of
           None \<Rightarrow> s1
         | Some config \<Rightarrow>
             let s2 = s1\<lparr>currentMood := Some config, isPlaying := True\<rparr>
             in case generateMelody config rnd of
                  None \<Rightarrow> s2
                | Some mel \<Rightarrow>
                    playComposition r
                      (s2\<lparr>currentComposition := Some
                            \<lparr>melody = mel,
                             chords = map_of chordProgressions (progression config),
                             rhythmPattern = map_of rhythms (rhythm config),
                             comp_tempo = tempo config\<rparr>\<rparr>))"

text \<open>
  What can happen to a composer: a call of \<open>compose\<close>, a call of \<open>stop\<close>, or a pending
  timer firing (with the draw its callback makes, if it is a tick). Timers may fire in any
  order here, which covers the order of their delays.
\<close>

datatype event = Compose string "nat \<Rightarrow> real" real | Stop | Fire nat real

definition fire :: "nat \<Rightarrow> real \<Rightarrow> composer \<Rightarrow> composer" where
  "fire h r s =
     (case find (\<lambda>t. fst t = h) (timers s) of
        None \<Rightarrow> s
      | Some (h', delay, cb) \<Rightarrow>
          let s1 = s\<lparr>timers := filter (\<lambda>t. fst t \<noteq> h) (timers s)\<rparr>
          in case cb of
               PlayNextNote melodyIndex chordIndex rhythmIndex \<Rightarrow>
                 playNextNote r melodyIndex chordIndex rhythmIndex s1
             | PressChordNote n \<Rightarrow> pressKey (Some n) s1
             | ReleaseMelodyNote n \<Rightarrow> releaseKey n s1)"

fun step :: "event \<Rightarrow> composer \<Rightarrow> composer" where
  "step (Compose moodKey rnd r) s = compose moodKey rnd r s"
| "step Stop s = stop s"
| "step (Fire h r) s = fire h r s"

definition run :: "event list \<Rightarrow> composer \<Rightarrow> composer" where
  "run evs s = fold step evs s"

text \<open>The handles of the pending next-tick timers.\<close>

fun is_tick :: "callback \<Rightarrow> bool" where
  "is_tick (PlayNextNote melodyIndex chordIndex rhythmIndex) = True"
| "is_tick (PressChordNote n) = False"
| "is_tick (ReleaseMelodyNote n) = False"

definition pendingTicks :: "composer \<Rightarrow> nat list" where
  "pendingTicks s = map fst (filter (\<lambda>t. is_tick (snd (snd t))) (timers s))"

text \<open>
  Invariants of the composer. \<open>quiet\<close>: no tick is pending, handles are positive and
  every pending handle is older than the next one. \<open>single_loop\<close>: as \<open>quiet\<close>, or the
  composer is playing and the one pending tick is the timer whose handle is \<open>intervalId\<close>.
\<close>

definition quiet :: "composer \<Rightarrow> bool" where
  "quiet s = (nextTimer s \<noteq> 0 \<and> (\<forall>t \<in> set (timers s). fst t < nextTimer s) \<and> pendingTicks s = [])"

definition single_loop :: "composer \<Rightarrow> bool" where
  "single_loop s =
     (nextTimer s \<noteq> 0 \<and> (\<forall>t \<in> set (timers s). fst t < nextTimer s) \<and>
      (pendingTicks s = [] \<or>
       (isPlaying s \<and> (\<exists>h. h \<noteq> 0 \<and> intervalId s = Some h \<and> pendingTicks s = [h]))))"

text \<open>\<open>old_or_fresh s s'\<close>: every timer of \<open>s'\<close> is a timer of \<open>s\<close> or has a handle new since \<open>s\<close>.\<close>

definition old_or_fresh :: "composer \<Rightarrow> composer \<Rightarrow> bool" where
  "old_or_fresh s s' =
     (nextTimer s \<le> nextTimer s' \<and>
      (\<forall>t \<in> set (timers s'). t \<in> set (timers s) \<or> nextTimer s \<le> fst t))"

text \<open>
  A state is ready for a tick with the given cursors: it is playing, and its composition has
  a chord table and a rhythm table and the cursors lie inside melody, chords and rhythm.
\<close>

definition tick_ready :: "composer \<Rightarrow> nat \<Rightarrow> nat \<Rightarrow> nat \<Rightarrow> bool" where
  "tick_ready s mi ci ri =
     (isPlaying s \<and>
      (\<exists>c chs rh. currentComposition s = Some c \<and> chords c = Some chs \<and> rhythmPattern c = Some rh \<and>
         mi < length (melody c) \<and> ci < length chs \<and> ri < length rh))"

definition ticks_ready :: "composer \<Rightarrow> bool" where
  "ticks_ready s =
     (\<forall>h d mi ci ri. (h, d, PlayNextNote mi ci ri) \<in> set (timers s) \<longrightarrow> tick_ready s mi ci ri)"

text \<open>\<open>handles_ok\<close>: pending timers have distinct handles, all older than the next one.\<close>

definition handles_ok :: "composer \<Rightarrow> bool" where
  "handles_ok s = (distinct (map fst (timers s)) \<and> (\<forall>t \<in> set (timers s). fst t < nextTimer s))"

text \<open>Example states: a composition started on a fresh composer, after its first tick.\<close>

definition epic_running :: composer where
  "epic_running = run [Compose ''epic'' (\<lambda>i. 0) 0.9] newComposer"

definition spring_running :: composer where
  "spring_running = compose ''spring'' (\<lambda>i. 0) 0 newComposer"

definition spring_composition :: composition where
  "spring_composition =
     \<lparr>melody = [Some ''C4'', Some ''D4'', Some ''E4'', Some ''G4'', Some ''A4'', Some ''C5'',
                Some ''D5'', Some ''E5''],
      chords = Some [[''C4'', ''E4'', ''G4''], [''F4'', ''A4'', ''C5''], [''G4'', ''B4'', ''D5''],
                     [''C4'', ''E4'', ''G4'']],
      rhythmPattern = Some [400, 600, 400, 800],
      comp_tempo = 450\<rparr>"

text \<open>The spring composition after its second tick, started by the timer 2.\<close>

definition spring_tick :: composer where
  "spring_tick = fire 2 0.9 (run [Compose ''spring'' (\<lambda>i. 0) 0] newComposer)"


section \<open>Theorems: the voice manager\<close>

subsection \<open>What the operations do to the fields\<close>

lemma stop_and_delete_fields:
  "sustainActive (stop_and_delete n e) = sustainActive e"
  "sustainedNotes (stop_and_delete n e) = sustainedNotes e"
  "oscillators (stop_and_delete n e) = oscillators e"
  "activeNotes (stop_and_delete n e) = (activeNotes e)(n := None)"
  "stopped (stop_and_delete n e) = stopped e \<union> {v. activeNotes e n = Some v}"
  by (auto simp: stop_and_delete_def sound_stop_def split: option.splits)

lemma fold_stop_and_delete_fields:
  "sustainActive (fold stop_and_delete ns e) = sustainActive e"
  "sustainedNotes (fold stop_and_delete ns e) = sustainedNotes e"
  "oscillators (fold stop_and_delete ns e) = oscillators e"
  by (induction ns arbitrary: e) (simp_all add: stop_and_delete_fields)

lemma fold_stop_and_delete_active:
  "activeNotes (fold stop_and_delete ns e) m = (if m \<in> set ns then None else activeNotes e m)"
  by (induction ns arbitrary: e) (simp_all add: stop_and_delete_fields)

lemma fold_stop_and_delete_stopped:
  "stopped (fold stop_and_delete ns e) =
     stopped e \<union> {v. \<exists>n \<in> set ns. activeNotes e n = Some v}"
proof (induction ns arbitrary: e)
  case Nil
  then show ?case by simp
next
  case (Cons n ns)
  show ?case
    by (auto simp: Cons.IH stop_and_delete_fields split: if_splits)
qed

subsection \<open>The held-set is empty whenever sustain is off\<close>

lemma held_stopNote: "held_only_under_sustain e \<Longrightarrow> held_only_under_sustain (stopNote n e)"
  by (auto simp: held_only_under_sustain_def stopNote_def stop_and_delete_fields)

lemma held_playNote: "held_only_under_sustain e \<Longrightarrow> held_only_under_sustain (playNote n e)"
  by (auto simp: held_only_under_sustain_def playNote_def stopNote_def stop_and_delete_fields
      createPianoSound_def Let_def split: option.splits)

lemma held_setSustain: "held_only_under_sustain (setSustain b e)"
  by (simp add: held_only_under_sustain_def setSustain_def Let_def)

lemma held_vm_run: "held_only_under_sustain e \<Longrightarrow> held_only_under_sustain (vm_run ops e)"
  unfolding vm_run_def
proof (induction ops arbitrary: e)
  case Nil
  then show ?case by simp
next
  case (Cons x ops)
  have "held_only_under_sustain (vm_apply x e)"
    using Cons.prems by (cases x) (simp_all add: held_stopNote held_playNote held_setSustain)
  then show ?case by (simp add: Cons.IH)
qed

lemma held_newEngine: "held_only_under_sustain newEngine"
  by (simp add: held_only_under_sustain_def newEngine_def)

lemma held_example_fields:
  "sustainedNotes held_example = [''C4'']" "sustainActive held_example"
  "activeNotes held_example ''C4'' = Some 0"
  by (simp_all add: held_example_def vm_run_def playNote_def stopNote_def setSustain_def
      newEngine_def noteFrequencies_def createPianoSound_def set_add_def Let_def)

text \<open>
  Claim C2. After any sequence of press, release and setSustain operations on a fresh
  engine, a note identifier is in the held-set only if sustain is active. In every state,
  \<open>setSustain(false)\<close> is one step after which sustain is off, the held-set is empty, every
  note that was held has no entry in the active-voice map and the voice it had there has
  been stopped; the entries of the other notes are as before.
\<close>

theorem sustain_held_set_flush:
  "(n \<in> set (sustainedNotes (vm_run ops newEngine)) \<longrightarrow> sustainActive (vm_run ops newEngine)) \<and>
   sustainActive (setSustain False e) = False \<and>
   sustainedNotes (setSustain False e) = [] \<and>
   (\<forall>h \<in> set (sustainedNotes e).
      activeNotes (setSustain False e) h = None \<and>
      (\<forall>v. activeNotes e h = Some v \<longrightarrow> v \<in> stopped (setSustain False e))) \<and>
   (\<forall>m. m \<notin> set (sustainedNotes e) \<longrightarrow> activeNotes (setSustain False e) m = activeNotes e m)"
proof -
  have "held_only_under_sustain (vm_run ops newEngine)"
    by (rule held_vm_run [OF held_newEngine])
  then have a: "n \<in> set (sustainedNotes (vm_run ops newEngine)) \<longrightarrow> sustainActive (vm_run ops newEngine)"
    by (auto simp: held_only_under_sustain_def)
  have b: "setSustain False e =
      (fold stop_and_delete (sustainedNotes e) (e\<lparr>sustainActive := False\<rparr>))\<lparr>sustainedNotes := []\<rparr>"
    by (simp add: setSustain_def)
  show ?thesis
    using a by (auto simp: b fold_stop_and_delete_fields fold_stop_and_delete_active
        fold_stop_and_delete_stopped)
qed

theorem sustain_held_set_flush_witness:
  "''C4'' \<in> set (sustainedNotes (vm_run [SetSustain True, Press ''C4'', Release ''C4''] newEngine)) \<and>
   sustainActive (vm_run [SetSustain True, Press ''C4'', Release ''C4''] newEngine) \<and>
   sustainedNotes (setSustain False held_example) = [] \<and>
   activeNotes (setSustain False held_example) ''C4'' = None \<and>
   0 \<in> stopped (setSustain False held_example) \<and>
   activeNotes (setSustain False held_example) ''D4'' = activeNotes held_example ''D4''"
  using sustain_held_set_flush [of "''C4''" "[SetSustain True, Press ''C4'', Release ''C4'']" held_example]
    held_example_fields
  by (simp add: held_example_def [symmetric])

subsection \<open>Pressing a sounding note again\<close>

text \<open>With sustain off, the second press stops the voice of the first and stores a new one.\<close>

lemma playNote_retrigger_without_sustain:
  assumes "\<not> sustainActive e" "map_of noteFrequencies n = Some f" "f \<noteq> 0"
    "activeNotes e n = Some v"
  shows "v \<in> stopped (playNote n e) \<and> activeNotes (playNote n e) n = Some (length (oscillators e))"
  using assms
  by (simp add: playNote_def stopNote_def stop_and_delete_fields createPianoSound_def Let_def)

text \<open>
  Claim C1, on the code with sustain active: on a fresh engine with the pedal down, two
  presses of C4 in a row leave two voices sounding at the frequency of C4. The map holds
  the second voice; the first one was never stopped, because \<open>playNote\<close> stops the existing
  note through \<open>stopNote\<close>, which under sustain only adds the note to the held-set.
\<close>

theorem playNote_twice_under_sustain:
  "liveVoices 261.63 (playNote ''C4'' (playNote ''C4'' (setSustain True newEngine))) = [0, 1] \<and>
   activeNotes (playNote ''C4'' (playNote ''C4'' (setSustain True newEngine))) ''C4'' = Some 1 \<and>
   0 \<notin> stopped (playNote ''C4'' (playNote ''C4'' (setSustain True newEngine)))"
  by (simp add: liveVoices_def playNote_def stopNote_def setSustain_def newEngine_def
      noteFrequencies_def createPianoSound_def set_add_def Let_def upt_rec)

subsection \<open>Note identifiers outside the frequency table\<close>

lemma playNote_unknown: "map_of noteFrequencies u = None \<Longrightarrow> playNote u e = e"
  by (simp add: playNote_def)

lemma stopNote_unknown_without_sustain:
  "\<not> sustainActive e \<Longrightarrow> activeNotes e u = None \<Longrightarrow> stopNote u e = e"
  by (simp add: stopNote_def stop_and_delete_def)

lemma absent_stopNote: "activeNotes e u = None \<Longrightarrow> activeNotes (stopNote n e) u = None"
  by (simp add: stopNote_def stop_and_delete_fields)

lemma absent_playNote:
  "map_of noteFrequencies u = None \<Longrightarrow> activeNotes e u = None \<Longrightarrow>
   activeNotes (playNote n e) u = None"
  by (cases "n = u")
    (auto simp: playNote_def stopNote_def stop_and_delete_fields createPianoSound_def Let_def
      split: option.splits)

lemma absent_setSustain: "activeNotes e u = None \<Longrightarrow> activeNotes (setSustain b e) u = None"
  by (simp add: setSustain_def Let_def fold_stop_and_delete_active)

lemma absent_vm_run:
  "map_of noteFrequencies u = None \<Longrightarrow> activeNotes e u = None \<Longrightarrow>
   activeNotes (vm_run ops e) u = None"
  unfolding vm_run_def
proof (induction ops arbitrary: e)
  case Nil
  then show ?case by simp
next
  case (Cons x ops)
  have "activeNotes (vm_apply x e) u = None"
    using Cons.prems by (cases x) (simp_all add: absent_playNote absent_stopNote absent_setSustain)
  with Cons.prems(1) show ?case by (simp add: Cons.IH)
qed

text \<open>
  After any run from a fresh engine, pressing an unknown note changes nothing, and releasing
  it changes nothing unless sustain is active.
\<close>

lemma unknown_note_without_sustain:
  assumes "map_of noteFrequencies u = None"
  shows "playNote u (vm_run ops newEngine) = vm_run ops newEngine"
    and "\<not> sustainActive (vm_run ops newEngine) \<Longrightarrow>
         stopNote u (vm_run ops newEngine) = vm_run ops newEngine"
proof -
  show "playNote u (vm_run ops newEngine) = vm_run ops newEngine"
    using assms by (rule playNote_unknown)
  have "activeNotes (vm_run ops newEngine) u = None"
    using assms by (rule absent_vm_run) (simp add: newEngine_def)
  then show "\<not> sustainActive (vm_run ops newEngine) \<Longrightarrow>
         stopNote u (vm_run ops newEngine) = vm_run ops newEngine"
    by (simp add: stopNote_unknown_without_sustain)
qed

text \<open>
  Claim C6, on the code with sustain active: \<open>X9\<close> is not in the frequency table, and on
  an engine with the pedal down and an empty held-set, releasing \<open>X9\<close> puts it into the
  held-set. (Pressing an unknown note changes nothing in any state, and after any run from
  a fresh engine releasing one changes nothing when sustain is off: the lemmas above.)
\<close>

theorem stopNote_unknown_under_sustain:
  "map_of noteFrequencies ''X9'' = None \<and>
   sustainedNotes (setSustain True newEngine) = [] \<and>
   sustainedNotes (stopNote ''X9'' (setSustain True newEngine)) = [''X9'']"
  by (simp add: noteFrequencies_def stopNote_def setSustain_def newEngine_def set_add_def)


section \<open>Theorems: recording and playback\<close>

subsection \<open>The timer and the loop\<close>

lemma timer_delay_small: "0 \<le> d \<Longrightarrow> d < 2 ^ 31 \<Longrightarrow> timer_delay d = d"
  by (simp add: timer_delay_def Let_def)

lemma timer_delay_nonneg: "0 \<le> timer_delay d"
  by (simp add: timer_delay_def Let_def)

lemma playback_loop_idle:
  assumes "\<not> recording r"
  shows "playback_loop start env i clock r trace =
           Some (trace @ replay start env i clock (drop i (recordedNotes r)))"
  using assms
proof (induction "length (recordedNotes r) - i" arbitrary: i clock trace)
  case 0
  then show ?case by (subst playback_loop.simps) simp
next
  case (Suc n)
  then have i: "i < length (recordedNotes r)" by simp
  have d: "drop i (recordedNotes r) = recordedNotes r ! i # drop (Suc i) (recordedNotes r)"
    using i by (simp add: Cons_nth_drop_Suc)
  have s: "sink_call t e r = r" for t e
    using Suc.prems by (simp add: sink_call_def recordNote_def)
  have n: "n = length (recordedNotes r) - Suc i" using Suc.hyps(2) by simp
  show ?case
    by (subst playback_loop.simps) (simp add: i d s Let_def Suc.hyps(1) [OF n Suc.prems])
qed

lemma playback_loop_live:
  assumes "playback_loop start env i clock r trace = Some y"
  shows "\<not> (recording r \<and> i < length (recordedNotes r))"
proof (rule playback_loop.raw_induct
    [where P = "\<lambda>start env i clock r trace y. \<not> (recording r \<and> i < length (recordedNotes r))",
      OF _ assms])
  fix f :: "int \<Rightarrow> (nat \<Rightarrow> nat \<times> nat \<times> nat) \<Rightarrow> nat \<Rightarrow> int \<Rightarrow> recorder \<Rightarrow>
      (int \<times> note_id key_call) list \<Rightarrow> (int \<times> note_id key_call) list option"
  fix start env i clock and r :: recorder and trace y
  assume ih: "\<And>start env i clock r trace y. f start env i clock r trace = Some y \<Longrightarrow>
      \<not> (recording r \<and> i < length (recordedNotes r))"
  assume body: "(if i < length (recordedNotes r)
        then let event = recordedNotes r ! i;
                 targetTime = start + timestamp event;
                 now = clock + int (fst (env i)); delay = targetTime - now;
                 fired = if 0 < delay then now + timer_delay delay + int (fst (snd (env i))) else now;
                 recorded = fired + int (snd (snd (env i)))
             in f start env (Suc i) recorded (sink_call recorded event r)
                 (trace @ [(fired, call_of event)])
        else Some trace) = Some y"
  show "\<not> (recording r \<and> i < length (recordedNotes r))"
  proof
    assume a: "recording r \<and> i < length (recordedNotes r)"
    with body obtain t r' tr where
      call: "f start env (Suc i) t r' tr = Some y" and r': "r' = sink_call t (recordedNotes r ! i) r"
      by (simp add: Let_def)
    from r' a have "recording r' \<and> Suc i < length (recordedNotes r')"
      by (simp add: sink_call_def recordNote_def)
    with ih [OF call] show False by contradiction
  qed
qed

subsection \<open>Replaying an array that stays as it is\<close>

lemma replay_calls: "map snd (replay st env k clock evs) = map call_of evs"
  by (induction evs arbitrary: k clock) (simp_all add: Let_def)

lemma replay_length: "length (replay st env k clock evs) = length evs"
  by (induction evs arbitrary: k clock) (simp_all add: Let_def)

lemma replay_after_clock:
  "x \<in> set (replay st env k clock evs) \<Longrightarrow> clock \<le> fst x"
proof (induction evs arbitrary: k clock)
  case Nil
  then show ?case by simp
next
  case (Cons e evs)
  let ?now = "clock + int (fst (env k))"
  let ?delay = "st + timestamp e - ?now"
  let ?fired = "if ?delay > 0 then ?now + timer_delay ?delay + int (fst (snd (env k))) else ?now"
  let ?rec = "?fired + int (snd (snd (env k)))"
  have le: "clock \<le> ?fired" using timer_delay_nonneg [of ?delay] by simp
  from Cons.prems
  have "x = (?fired, call_of e) \<or> x \<in> set (replay st env (Suc k) ?rec evs)"
    unfolding replay.simps Let_def by simp
  then show ?case
  proof
    assume "x = (?fired, call_of e)"
    then show ?thesis using le by simp
  next
    assume "x \<in> set (replay st env (Suc k) ?rec evs)"
    then have "?rec \<le> fst x" by (rule Cons.IH)
    with le show ?thesis by simp
  qed
qed

lemma replay_sorted: "sorted (map fst (replay st env k clock evs))"
proof (induction evs arbitrary: k clock)
  case Nil
  then show ?case by simp
next
  case (Cons e evs)
  let ?now = "clock + int (fst (env k))"
  let ?delay = "st + timestamp e - ?now"
  let ?fired = "if ?delay > 0 then ?now + timer_delay ?delay + int (fst (snd (env k))) else ?now"
  let ?rec = "?fired + int (snd (snd (env k)))"
  have "?fired \<le> fst x" if "x \<in> set (replay st env (Suc k) ?rec evs)" for x
    using replay_after_clock [OF that] by simp
  then have "\<forall>x \<in> set (replay st env (Suc k) ?rec evs). ?fired \<le> fst x" by blast
  moreover have "sorted (map fst (replay st env (Suc k) ?rec evs))" by (rule Cons.IH)
  ultimately show ?case unfolding replay.simps Let_def by simp
qed

lemma replay_not_early:
  assumes "st \<le> clock" "\<forall>e \<in> set evs. timestamp e < 2 ^ 31" "i < length evs"
  shows "st + timestamp (evs ! i) \<le> fst (replay st env k clock evs ! i)"
  using assms
proof (induction evs arbitrary: k clock i)
  case Nil
  then show ?case by simp
next
  case (Cons e evs)
  let ?now = "clock + int (fst (env k))"
  let ?delay = "st + timestamp e - ?now"
  let ?fired = "if ?delay > 0 then ?now + timer_delay ?delay + int (fst (snd (env k))) else ?now"
  let ?rec = "?fired + int (snd (snd (env k)))"
  have r: "replay st env k clock (e # evs) = (?fired, call_of e) # replay st env (Suc k) ?rec evs"
    unfolding replay.simps Let_def by simp
  have small: "?delay < 2 ^ 31" using Cons.prems(1,2) by simp
  have fired: "st + timestamp e \<le> ?fired"
  proof (cases "?delay > 0")
    case True
    then have "timer_delay ?delay = ?delay" using small by (intro timer_delay_small) simp_all
    with True show ?thesis by simp
  next
    case False
    then show ?thesis by simp
  qed
  show ?case
  proof (cases i)
    case 0
    then show ?thesis unfolding r using fired by simp
  next
    case (Suc j)
    have "st \<le> ?rec" using Cons.prems(1) timer_delay_nonneg [of ?delay] by simp
    moreover have "\<forall>e \<in> set evs. timestamp e < 2 ^ 31" using Cons.prems(2) by simp
    moreover have "j < length evs" using Cons.prems(3) Suc by simp
    ultimately have "st + timestamp (evs ! j) \<le> fst (replay st env (Suc k) ?rec evs ! j)"
      by (rule Cons.IH)
    then show ?thesis unfolding r using Suc by simp
  qed
qed

lemma recordNote_fold_sorted:
  assumes "recording r" "sorted (map timestamp (recordedNotes r))"
    "\<forall>x \<in> set (recordedNotes r). \<forall>y \<in> set evs. timestamp x \<le> fst y - startTime r"
    "sorted (map fst evs)"
  shows "sorted (map timestamp (recordedNotes (fold (\<lambda>(now, n, p). recordNote now n p) evs r)))"
  using assms
proof (induction evs arbitrary: r)
  case Nil
  then show ?case by simp
next
  case (Cons a evs)
  obtain now n p where a: "a = (now, n, p)" by (cases a)
  let ?r = "recordNote now n p r"
  have 1: "recording ?r" using Cons.prems(1) by (simp add: recordNote_def)
  have 2: "sorted (map timestamp (recordedNotes ?r))"
    using Cons.prems by (auto simp: recordNote_def a sorted_append)
  have 3: "\<forall>x \<in> set (recordedNotes ?r). \<forall>y \<in> set evs. timestamp x \<le> fst y - startTime ?r"
    using Cons.prems by (auto simp: recordNote_def a)
  have 4: "sorted (map fst evs)" using Cons.prems(4) by simp
  show ?case using Cons.IH [OF 1 2 3 4] by (simp add: a)
qed

lemma record_session_sorted:
  "sorted (map fst evs) \<Longrightarrow> sorted (map timestamp (recordedNotes (record_session t evs)))"
  unfolding record_session_def
  by (rule recordNote_fold_sorted) (simp_all add: startRecording_def newRecorder_def)

lemma playback_idle:
  "\<not> recording r \<Longrightarrow> playback t0 env r = Some (replay t0 env 0 t0 (recordedNotes r))"
  by (simp add: playback_def playback_loop_idle)

text \<open>
  Claim C3 as stated fails in two ways. A recorder that is still recording and holds one
  press of C4 never finishes its playback: every call on the sink records a new event that
  the loop goes on to replay. And a stopped recording whose event has the offset \<open>2^31\<close>
  ms is replayed at once, at the playback anchor, because the timer takes a 32-bit delay.
\<close>

theorem playback_diverges_or_fires_early:
  "recording live_recording \<and>
   map call_of (recordedNotes live_recording) = [PressKey ''C4''] \<and>
   playback 1000 (\<lambda>k. (3, 7, 0)) live_recording = None \<and>
   \<not> recording long_recording \<and>
   map timestamp (recordedNotes long_recording) = [2147483648] \<and>
   playback 0 (\<lambda>k. (0, 0, 0)) long_recording = Some [(0, PressKey ''C4'')] \<and>
   \<not> (0 + 2147483648 \<le> fst ((0 :: int, PressKey ''C4'')))"
proof -
  have l: "recording live_recording" "length (recordedNotes live_recording) = 1"
    "map call_of (recordedNotes live_recording) = [PressKey ''C4'']"
    by (simp_all add: live_recording_def recordNote_def startRecording_def newRecorder_def
        call_of_def)
  have live: "playback 1000 (\<lambda>k. (3, 7, 0)) live_recording = None"
  proof (cases "playback 1000 (\<lambda>k. (3, 7, 0)) live_recording")
    case None
    then show ?thesis .
  next
    case (Some y)
    with l have "playback_loop 1000 (\<lambda>k. (3, 7, 0)) 0 1000 live_recording [] = Some y"
      by (simp add: playback_def)
    from playback_loop_live [OF this] l show ?thesis by simp
  qed
  have long: "playback 0 (\<lambda>k. (0, 0, 0)) long_recording = Some [(0, PressKey ''C4'')]"
    "\<not> recording long_recording" "map timestamp (recordedNotes long_recording) = [2147483648]"
    by (simp_all add: playback_def playback_loop_idle long_recording_def newRecorder_def Let_def
        timer_delay_def call_of_def)
  from l(1,3) live long show ?thesis by simp
qed

text \<open>
  Claim C3, amended. Playback of an empty recording returns at once and calls nothing on
  the sink. Playback by a recorder that is not recording returns, and the calls it has made
  are those of the recorded events, one per event and in the order of the recording:
  \<open>pressKey(note)\<close> for a press event and \<open>releaseKey(note)\<close> for a release event; the
  calls are made at non-decreasing times, and if every recorded offset is below \<open>2^31\<close> ms
  the call for an event is made no earlier than the playback anchor plus the offset of the
  event. The order of a recording is chronological: a session whose clock readings do not
  decrease records non-decreasing offsets. The witness replays the recording
  [(C4, press, 0), (C4, release, 500)].
\<close>

theorem playback_contract:
  "(recordedNotes r = [] \<longrightarrow> playback t0 env r = Some []) \<and>
   (\<not> recording r \<longrightarrow>
      (\<exists>trace. playback t0 env r = Some trace \<and>
         map snd trace = map call_of (recordedNotes r) \<and>
         sorted (map fst trace) \<and>
         ((\<forall>e \<in> set (recordedNotes r). timestamp e < 2 ^ 31) \<longrightarrow>
            (\<forall>i < length (recordedNotes r). t0 + timestamp (recordedNotes r ! i) \<le> fst (trace ! i))))) \<and>
   (sorted (map fst evs) \<longrightarrow> sorted (map timestamp (recordedNotes (record_session t evs))))"
proof (intro conjI impI)
  show "playback t0 env r = Some []" if "recordedNotes r = []"
    using that by (simp add: playback_def)
  show "\<exists>trace. playback t0 env r = Some trace \<and>
         map snd trace = map call_of (recordedNotes r) \<and>
         sorted (map fst trace) \<and>
         ((\<forall>e \<in> set (recordedNotes r). timestamp e < 2 ^ 31) \<longrightarrow>
            (\<forall>i < length (recordedNotes r). t0 + timestamp (recordedNotes r ! i) \<le> fst (trace ! i)))"
    if "\<not> recording r"
  proof (intro exI conjI impI allI)
    show "playback t0 env r = Some (replay t0 env 0 t0 (recordedNotes r))"
      using that by (rule playback_idle)
    show "map snd (replay t0 env 0 t0 (recordedNotes r)) = map call_of (recordedNotes r)"
      by (rule replay_calls)
    show "sorted (map fst (replay t0 env 0 t0 (recordedNotes r)))" by (rule replay_sorted)
    show "t0 + timestamp (recordedNotes r ! i) \<le> fst (replay t0 env 0 t0 (recordedNotes r) ! i)"
      if "\<forall>e \<in> set (recordedNotes r). timestamp e < 2 ^ 31" "i < length (recordedNotes r)" for i
      using that by (intro replay_not_early) simp_all
  qed
  show "sorted (map timestamp (recordedNotes (record_session t evs)))" if "sorted (map fst evs)"
    using that by (rule record_session_sorted)
qed

lemma c4_playback:
  "\<not> recording c4_recording"
  "\<forall>e \<in> set (recordedNotes c4_recording). timestamp e < 2 ^ 31"
  "playback 1000 (\<lambda>k. (3, 7, 2)) c4_recording = Some [(1003, PressKey ''C4''), (1507, ReleaseKey ''C4'')]"
  by (simp_all add: playback_idle c4_recording_def newRecorder_def Let_def call_of_def timer_delay_def)

theorem playback_contract_witness:
  "playback 1000 (\<lambda>k. (3, 7, 2)) c4_recording = Some [(1003, PressKey ''C4''), (1507, ReleaseKey ''C4'')] \<and>
   (\<exists>trace. playback 1000 (\<lambda>k. (3, 7, 2)) c4_recording = Some trace \<and>
      map snd trace = map call_of (recordedNotes c4_recording) \<and>
      sorted (map fst trace) \<and>
      (\<forall>i < length (recordedNotes c4_recording).
          1000 + timestamp (recordedNotes c4_recording ! i) \<le> fst (trace ! i))) \<and>
   map call_of (recordedNotes c4_recording) = [PressKey ''C4'', ReleaseKey ''C4''] \<and>
   playback 1000 (\<lambda>k. (3, 7, 2)) newRecorder = Some [] \<and>
   map timestamp (recordedNotes (record_session 40 [(40, ''C4'', True), (540, ''C4'', False)])) = [0, 500]"
proof -
  note t = playback_contract [of c4_recording 1000 "\<lambda>k. (3, 7, 2)" "[(40, ''C4'', True), (540, ''C4'', False)]" 40]
  from t c4_playback(1,2)
  have a: "\<exists>trace. playback 1000 (\<lambda>k. (3, 7, 2)) c4_recording = Some trace \<and>
      map snd trace = map call_of (recordedNotes c4_recording) \<and>
      sorted (map fst trace) \<and>
      (\<forall>i < length (recordedNotes c4_recording).
          1000 + timestamp (recordedNotes c4_recording ! i) \<le> fst (trace ! i))"
    by blast
  have n: "recordedNotes newRecorder = []" by (simp add: newRecorder_def)
  from playback_contract [of newRecorder 1000 "\<lambda>k. (3, 7, 2)" "[]" 40] n
  have b: "playback 1000 (\<lambda>k. (3, 7, 2)) newRecorder = Some []" by blast
  have s: "sorted (map fst [(40 :: int, ''C4'', True), (540, ''C4'', False)])" by simp
  have c: "map call_of (recordedNotes c4_recording) = [PressKey ''C4'', ReleaseKey ''C4'']"
    "map timestamp (recordedNotes (record_session 40 [(40, ''C4'', True), (540, ''C4'', False)])) = [0, 500]"
    by (simp_all add: c4_recording_def newRecorder_def call_of_def record_session_def
        recordNote_def startRecording_def)
  from c4_playback(3) a b c show ?thesis by (intro conjI)
qed


section \<open>Theorems: analyzeMood\<close>

text \<open>\<open>js_includes\<close> is the substring test.\<close>

lemma startsWith_iff: "startsWith t w \<longleftrightarrow> (\<exists>s. t = w @ s)"
  by (induction t w rule: startsWith.induct) auto

lemma js_includes_iff: "js_includes t w \<longleftrightarrow> (\<exists>p s. t = p @ w @ s)"
proof (induction t)
  case Nil
  then show ?case by auto
next
  case (Cons c cs)
  show ?case
  proof
    assume "js_includes (c # cs) w"
    then consider "startsWith (c # cs) w" | "js_includes cs w" by auto
    then show "\<exists>p s. c # cs = p @ w @ s"
    proof cases
      case 1
      then obtain s where "c # cs = w @ s" by (auto simp: startsWith_iff)
      then have "c # cs = [] @ w @ s" by simp
      then show ?thesis by blast
    next
      case 2
      then obtain p s where "cs = p @ w @ s" using Cons.IH by blast
      then have "c # cs = (c # p) @ w @ s" by simp
      then show ?thesis by blast
    qed
  next
    assume "\<exists>p s. c # cs = p @ w @ s"
    then obtain p s where ps: "c # cs = p @ w @ s" by blast
    show "js_includes (c # cs) w"
    proof (cases p)
      case Nil
      with ps have "startsWith (c # cs) w" by (auto simp: startsWith_iff)
      then show ?thesis by simp
    next
      case (Cons a p')
      with ps have "cs = p' @ w @ s" by simp
      then have "js_includes cs w" using Cons.IH by blast
      then show ?thesis by simp
    qed
  qed
qed

lemma score_zero_iff: "score t ws = 0 \<longleftrightarrow> (\<forall>w \<in> set ws. \<not> js_includes t w)"
  by (simp add: score_def filter_empty_conv)

text \<open>Generic: the scan keeps the first entry that attains the maximum above the start.\<close>

lemma bestMatchLoop_first_max:
  "(if \<forall>i < length tbl. score t (snd (tbl ! i)) \<le> m
    then bestMatchLoop tbl t b m = b
    else \<exists>i < length tbl.
           bestMatchLoop tbl t b m = fst (tbl ! i) \<and>
           m < score t (snd (tbl ! i)) \<and>
           (\<forall>j < length tbl. score t (snd (tbl ! j)) \<le> score t (snd (tbl ! i))) \<and>
           (\<forall>j < i. score t (snd (tbl ! j)) < score t (snd (tbl ! i))))"
proof (induction tbl arbitrary: b m)
  case Nil
  then show ?case by simp
next
  case (Cons a tbl)
  obtain mood ws where a: "a = (mood, ws)" by (cases a)
  let ?sc = "\<lambda>i. score t (snd (tbl ! i))"
  show ?case
  proof (cases "score t ws > m")
    case True
    have res: "bestMatchLoop (a # tbl) t b m = bestMatchLoop tbl t mood (score t ws)"
      using True by (simp add: a)
    have notall: "\<not> (\<forall>i < length (a # tbl). score t (snd ((a # tbl) ! i)) \<le> m)"
      using True by (auto simp: a intro!: exI [of _ 0])
    show ?thesis
    proof (cases "\<forall>i < length tbl. ?sc i \<le> score t ws")
      case all: True
      with Cons.IH [where b = mood and m = "score t ws"] have r: "bestMatchLoop tbl t mood (score t ws) = mood"
        by simp
      have "bestMatchLoop (a # tbl) t b m = fst ((a # tbl) ! 0) \<and>
            m < score t (snd ((a # tbl) ! 0)) \<and>
            (\<forall>j < length (a # tbl). score t (snd ((a # tbl) ! j)) \<le> score t (snd ((a # tbl) ! 0))) \<and>
            (\<forall>j < 0. score t (snd ((a # tbl) ! j)) < score t (snd ((a # tbl) ! 0)))"
        using all True by (auto simp: res r a nth_Cons')
      then have "\<exists>i < length (a # tbl).
           bestMatchLoop (a # tbl) t b m = fst ((a # tbl) ! i) \<and>
           m < score t (snd ((a # tbl) ! i)) \<and>
           (\<forall>j < length (a # tbl). score t (snd ((a # tbl) ! j)) \<le> score t (snd ((a # tbl) ! i))) \<and>
           (\<forall>j < i. score t (snd ((a # tbl) ! j)) < score t (snd ((a # tbl) ! i)))"
        by (intro exI [of _ 0]) simp
      with notall show ?thesis by (simp only: if_False)
    next
      case False
      with Cons.IH [where b = mood and m = "score t ws"] obtain i where i: "i < length tbl"
        "bestMatchLoop tbl t mood (score t ws) = fst (tbl ! i)"
        "score t ws < ?sc i" "\<forall>j < length tbl. ?sc j \<le> ?sc i" "\<forall>j < i. ?sc j < ?sc i"
        by auto
      have "bestMatchLoop (a # tbl) t b m = fst ((a # tbl) ! Suc i) \<and>
            m < score t (snd ((a # tbl) ! Suc i)) \<and>
            (\<forall>j < length (a # tbl). score t (snd ((a # tbl) ! j)) \<le> score t (snd ((a # tbl) ! Suc i))) \<and>
            (\<forall>j < Suc i. score t (snd ((a # tbl) ! j)) < score t (snd ((a # tbl) ! Suc i)))"
        using i True by (auto simp: res a nth_Cons' less_Suc_eq_0_disj)
      moreover have "Suc i < length (a # tbl)" using i(1) by simp
      ultimately have "\<exists>i < length (a # tbl).
           bestMatchLoop (a # tbl) t b m = fst ((a # tbl) ! i) \<and>
           m < score t (snd ((a # tbl) ! i)) \<and>
           (\<forall>j < length (a # tbl). score t (snd ((a # tbl) ! j)) \<le> score t (snd ((a # tbl) ! i))) \<and>
           (\<forall>j < i. score t (snd ((a # tbl) ! j)) < score t (snd ((a # tbl) ! i)))"
        by blast
      with notall show ?thesis by (simp only: if_False)
    qed
  next
    case le: False
    have res: "bestMatchLoop (a # tbl) t b m = bestMatchLoop tbl t b m"
      using le by (simp add: a)
    show ?thesis
    proof (cases "\<forall>i < length tbl. ?sc i \<le> m")
      case all: True
      with Cons.IH [where b = b and m = m] have r: "bestMatchLoop tbl t b m = b" by simp
      have "\<forall>i < length (a # tbl). score t (snd ((a # tbl) ! i)) \<le> m"
        using all le by (auto simp: a nth_Cons')
      then show ?thesis by (simp only: res r if_P)
    next
      case False
      with Cons.IH [where b = b and m = m] obtain i where i: "i < length tbl"
        "bestMatchLoop tbl t b m = fst (tbl ! i)"
        "m < ?sc i" "\<forall>j < length tbl. ?sc j \<le> ?sc i" "\<forall>j < i. ?sc j < ?sc i"
        by auto
      have notall: "\<not> (\<forall>i < length (a # tbl). score t (snd ((a # tbl) ! i)) \<le> m)"
      proof
        assume all: "\<forall>i < length (a # tbl). score t (snd ((a # tbl) ! i)) \<le> m"
        have "\<forall>i < length tbl. ?sc i \<le> m"
        proof (intro allI impI)
          fix i assume "i < length tbl"
          then have "Suc i < length (a # tbl)" by simp
          with all have "score t (snd ((a # tbl) ! Suc i)) \<le> m" by blast
          then show "?sc i \<le> m" by simp
        qed
        with False show False by contradiction
      qed
      have "bestMatchLoop (a # tbl) t b m = fst ((a # tbl) ! Suc i) \<and>
            m < score t (snd ((a # tbl) ! Suc i)) \<and>
            (\<forall>j < length (a # tbl). score t (snd ((a # tbl) ! j)) \<le> score t (snd ((a # tbl) ! Suc i))) \<and>
            (\<forall>j < Suc i. score t (snd ((a # tbl) ! j)) < score t (snd ((a # tbl) ! Suc i)))"
        using i le by (auto simp: res a nth_Cons' less_Suc_eq_0_disj)
      moreover have "Suc i < length (a # tbl)" using i(1) by simp
      ultimately have "\<exists>i < length (a # tbl).
           bestMatchLoop (a # tbl) t b m = fst ((a # tbl) ! i) \<and>
           m < score t (snd ((a # tbl) ! i)) \<and>
           (\<forall>j < length (a # tbl). score t (snd ((a # tbl) ! j)) \<le> score t (snd ((a # tbl) ! i))) \<and>
           (\<forall>j < i. score t (snd ((a # tbl) ! j)) < score t (snd ((a # tbl) ! i)))"
        by blast
      with notall show ?thesis by (simp only: if_False)
    qed
  qed
qed

lemma rain_thunder_scores:
  "toLowerCase ''I feel the rain and thunder'' = ''i feel the rain and thunder''"
  "map (moodScore ''i feel the rain and thunder'') [0..<12] = [0, 0, 0, 0, 1, 1, 0, 0, 0, 0, 0, 0]"
  "fst (moodKeywords ! 4) = ''rain''" "fst (moodKeywords ! 5) = ''storm''"
  "analyzeMood ''I feel the rain and thunder'' = ''rain''"
  by (simp_all add: analyzeMood_def moodKeywords_def toLowerCase_def lower_char_def score_def
      moodScore_def upt_rec)

lemma analyzeMood_no_match:
  assumes "\<forall>i < length moodKeywords. moodScore (toLowerCase t) i = 0"
  shows "analyzeMood t = ''peaceful''"
proof -
  note fm = bestMatchLoop_first_max [of moodKeywords "toLowerCase t" 0 "''peaceful''",
      folded analyzeMood_def moodScore_def]
  from assms have "\<forall>i < length moodKeywords. moodScore (toLowerCase t) i \<le> 0" by simp
  with fm show ?thesis by (simp only: if_P)
qed

lemma analyzeMood_some_match:
  assumes "\<exists>i < length moodKeywords. moodScore (toLowerCase t) i \<noteq> 0"
  shows "\<exists>i < length moodKeywords.
          analyzeMood t = fst (moodKeywords ! i) \<and>
          (\<forall>j < length moodKeywords. moodScore (toLowerCase t) j \<le> moodScore (toLowerCase t) i) \<and>
          (\<forall>j < i. moodScore (toLowerCase t) j < moodScore (toLowerCase t) i)"
proof -
  note fm = bestMatchLoop_first_max [of moodKeywords "toLowerCase t" 0 "''peaceful''",
      folded analyzeMood_def moodScore_def]
  from assms have "\<not> (\<forall>i < length moodKeywords. moodScore (toLowerCase t) i \<le> 0)" by auto
  with fm have "\<exists>i < length moodKeywords.
          analyzeMood t = fst (moodKeywords ! i) \<and>
          0 < moodScore (toLowerCase t) i \<and>
          (\<forall>j < length moodKeywords. moodScore (toLowerCase t) j \<le> moodScore (toLowerCase t) i) \<and>
          (\<forall>j < i. moodScore (toLowerCase t) j < moodScore (toLowerCase t) i)"
    by (simp only: if_not_P if_False)
  then obtain i where "i < length moodKeywords" "analyzeMood t = fst (moodKeywords ! i)"
    "\<forall>j < length moodKeywords. moodScore (toLowerCase t) j \<le> moodScore (toLowerCase t) i"
    "\<forall>j < i. moodScore (toLowerCase t) j < moodScore (toLowerCase t) i"
    by blast
  then show ?thesis by blast
qed

text \<open>
  Claim C7. \<open>analyzeMood\<close> is a function of its text alone. It scores the text in lower
  case: the score of a mood is the number of its keywords that occur in the text. If every
  score is zero the result is the fallback \<open>peaceful\<close>; otherwise the result is the mood at
  the first position of the keyword table whose score is the maximum (every earlier mood
  scores strictly less). For \<open>I feel the rain and thunder\<close> the scores are 1 for \<open>rain\<close>
  (position 4) and for \<open>storm\<close> (position 5) and 0 elsewhere, and the result is \<open>rain\<close>.
\<close>

theorem analyzeMood_first_maximum:
  "((\<forall>i < length moodKeywords. moodScore (toLowerCase text) i = 0) \<longrightarrow>
       analyzeMood text = ''peaceful'') \<and>
   ((\<exists>i < length moodKeywords. moodScore (toLowerCase text) i \<noteq> 0) \<longrightarrow>
      (\<exists>i < length moodKeywords.
          analyzeMood text = fst (moodKeywords ! i) \<and>
          (\<forall>j < length moodKeywords.
              moodScore (toLowerCase text) j \<le> moodScore (toLowerCase text) i) \<and>
          (\<forall>j < i. moodScore (toLowerCase text) j < moodScore (toLowerCase text) i))) \<and>
   toLowerCase ''I feel the rain and thunder'' = ''i feel the rain and thunder'' \<and>
   map (moodScore ''i feel the rain and thunder'') [0..<12] =
     [0, 0, 0, 0, 1, 1, 0, 0, 0, 0, 0, 0] \<and>
   fst (moodKeywords ! 4) = ''rain'' \<and> fst (moodKeywords ! 5) = ''storm'' \<and>
   analyzeMood ''I feel the rain and thunder'' = ''rain''"
  by (intro conjI impI analyzeMood_no_match analyzeMood_some_match rain_thunder_scores)

theorem analyzeMood_first_maximum_witness:
  "moodScore (toLowerCase ''Thunder and RAIN'') 4 = 1 \<and>
   moodScore (toLowerCase ''Thunder and RAIN'') 5 = 1 \<and>
   analyzeMood ''Thunder and RAIN'' = ''rain'' \<and>
   (\<exists>i < length moodKeywords.
      analyzeMood ''Thunder and RAIN'' = fst (moodKeywords ! i) \<and>
      (\<forall>j < length moodKeywords.
          moodScore (toLowerCase ''Thunder and RAIN'') j \<le> moodScore (toLowerCase ''Thunder and RAIN'') i) \<and>
      (\<forall>j < i. moodScore (toLowerCase ''Thunder and RAIN'') j < moodScore (toLowerCase ''Thunder and RAIN'') i)) \<and>
   analyzeMood ''xyz'' = ''peaceful''"
proof -
  have s4: "moodScore (toLowerCase ''Thunder and RAIN'') 4 = 1"
    and s5: "moodScore (toLowerCase ''Thunder and RAIN'') 5 = 1"
    and r: "analyzeMood ''Thunder and RAIN'' = ''rain''"
    by (simp_all add: analyzeMood_def moodKeywords_def toLowerCase_def lower_char_def score_def
        moodScore_def)
  have "4 < length moodKeywords" by (simp add: moodKeywords_def)
  with s4 have ex: "\<exists>i < length moodKeywords. moodScore (toLowerCase ''Thunder and RAIN'') i \<noteq> 0"
    by (intro exI [of _ 4]) simp
  have z: "\<forall>i < length moodKeywords. moodScore (toLowerCase ''xyz'') i = 0"
    by (simp add: moodKeywords_def toLowerCase_def lower_char_def score_def moodScore_def
        All_less_Suc numeral_eq_Suc)
  note m = analyzeMood_first_maximum [of "''Thunder and RAIN''", THEN conjunct2, THEN conjunct1,
      THEN mp, OF ex]
  note p = analyzeMood_first_maximum [of "''xyz''", THEN conjunct1, THEN mp, OF z]
  show ?thesis by (intro conjI s4 s5 r m p)
qed


section \<open>Theorems: generateMelody\<close>

lemma upt8: "[0..<8] = [0, 1, 2, 3, 4, 5, 6, 7]" and upt4: "[0..<4] = [0, 1, 2, 3]"
  by (simp_all add: upt_rec)



lemma floor_draw_in_range:
  assumes "0 \<le> r" "r < 1" "0 < len"
  shows "0 \<le> \<lfloor>r * of_int len\<rfloor> \<and> \<lfloor>r * of_int len\<rfloor> < (len :: int)"
proof -
  have "0 \<le> r * of_int len" using assms by simp
  then have a: "0 \<le> \<lfloor>r * of_int len\<rfloor>" by simp
  have "r * of_int len < 1 * of_int len" using assms by (intro mult_strict_right_mono) simp_all
  then have "r * of_int len < of_int len" by simp
  then have b: "\<lfloor>r * of_int len\<rfloor> < len" by (simp add: floor_less_iff)
  from a b show ?thesis by simp
qed

lemma gentle_walk_in_range:
  "0 \<le> c \<Longrightarrow> c < len \<Longrightarrow> x \<in> set (gentle_walk len k i rnd c) \<Longrightarrow> 0 \<le> x \<and> x < len"
proof (induction k arbitrary: i c)
  case 0
  then show ?case by simp
next
  case (Suc k)
  let ?c' = "max 0 (min (len - 1) (c + (if rnd i > 0.5 then 1 else - 1)))"
  from Suc.prems(3) have "x = c \<or> x \<in> set (gentle_walk len k (Suc i) rnd ?c')" by simp
  then show ?case
  proof
    assume "x = c"
    with Suc.prems show ?thesis by simp
  next
    assume x: "x \<in> set (gentle_walk len k (Suc i) rnd ?c')"
    have "0 \<le> ?c'" "?c' < len" using Suc.prems(1,2) by auto
    from Suc.IH [OF this x] show ?thesis .
  qed
qed

lemma melodyIndices_in_range:
  assumes rnd: "\<forall>i. 0 \<le> rnd i \<and> rnd i < 1"
    and len: "7 \<le> len" and heroic: "pat = ''heroic'' \<longrightarrow> 10 \<le> len"
    and x: "x \<in> set (melodyIndices pat len rnd)"
  shows "0 \<le> x \<and> x < len"
proof -
  have fl: "0 \<le> \<lfloor>rnd i * of_int len\<rfloor> \<and> \<lfloor>rnd i * of_int len\<rfloor> < len" for i
    using rnd len by (intro floor_draw_in_range) auto
  have walk: "y \<in> set (gentle_walk len 8 0 rnd (len div 2)) \<Longrightarrow> 0 \<le> y \<and> y < len" for y
    using len by (intro gentle_walk_in_range [of "len div 2" len y 8 0 rnd]) auto
  consider "pat = ''ascending''" | "pat = ''descending''" | "pat = ''playful''"
    | "pat = ''cascading''" | "pat = ''chaotic''" | "pat = ''gentle''" | "pat = ''flowing''"
    | "pat = ''jumping''" | "pat = ''heroic''" | "pat = ''sparse''"
    | "pat \<noteq> ''ascending''" "pat \<noteq> ''descending''" "pat \<noteq> ''playful''"
      "pat \<noteq> ''cascading''" "pat \<noteq> ''chaotic''" "pat \<noteq> ''gentle''" "pat \<noteq> ''flowing''"
      "pat \<noteq> ''jumping''" "pat \<noteq> ''heroic''" "pat \<noteq> ''sparse''"
    by blast
  then show ?thesis
  proof cases
    case 1
    with x len show ?thesis by (auto simp: melodyIndices_def)
  next
    case 2
    with x len show ?thesis by (auto simp: melodyIndices_def)
  next
    case 3
    with x len show ?thesis by (auto simp: melodyIndices_def)
  next
    case 4
    with x fl show ?thesis by (auto simp: melodyIndices_def)
  next
    case 5
    with x fl show ?thesis by (auto simp: melodyIndices_def)
  next
    case 6
    with x walk show ?thesis by (simp add: melodyIndices_def)
  next
    case 7
    with x walk show ?thesis by (simp add: melodyIndices_def)
  next
    case 8
    with x fl show ?thesis by (auto simp: melodyIndices_def)
  next
    case 9
    with x heroic show ?thesis by (auto simp: melodyIndices_def)
  next
    case 10
    with x len show ?thesis by (auto simp: melodyIndices_def)
  next
    case 11
    with x fl show ?thesis by (auto simp: melodyIndices_def)
  qed
qed

lemma js_at_in_range: "0 \<le> i \<Longrightarrow> i < int (length sc) \<Longrightarrow> \<exists>n \<in> set sc. js_at sc i = Some n"
  by (simp add: js_at_def)

lemma js_or_defined:
  "\<exists>n \<in> set sc. a = Some n \<Longrightarrow> \<exists>n \<in> set sc. b = Some n \<Longrightarrow> \<exists>n \<in> set sc. js_or a b = Some n"
  by (auto simp: js_or_def)

lemma generateMelodyOn_defined:
  assumes rnd: "\<forall>i. 0 \<le> rnd i \<and> rnd i < 1"
    and len: "7 \<le> length sc" and heroic: "pat = ''heroic'' \<longrightarrow> 10 \<le> length sc"
    and x: "x \<in> set (generateMelodyOn sc pat rnd)"
  shows "\<exists>n \<in> set sc. x = Some n"
proof (cases "pat = ''heroic''")
  case True
  with heroic have l: "10 \<le> length sc" by simp
  have at: "\<exists>n \<in> set sc. js_at sc i = Some n" if "0 \<le> i" "i < 10" for i
    using that l by (intro js_at_in_range) auto
  have "\<exists>n \<in> set sc. js_or (js_at sc 9) (js_at sc 7) = Some n"
    by (intro js_or_defined at) simp_all
  moreover from x True have "x \<in> {js_at sc 0, js_at sc 2, js_at sc 4, js_at sc 7,
      js_or (js_at sc 9) (js_at sc 7)}"
    by (auto simp: generateMelodyOn_def)
  ultimately show ?thesis using at [of 0] at [of 2] at [of 4] at [of 7] by auto
next
  case False
  with x obtain i where i: "i \<in> set (melodyIndices pat (int (length sc)) rnd)" "x = js_at sc i"
    by (auto simp: generateMelodyOn_def)
  from melodyIndices_in_range [OF rnd _ _ i(1)] len heroic
  have "0 \<le> i \<and> i < int (length sc)" by simp
  with i(2) show ?thesis by (simp add: js_at_in_range)
qed

lemma registered_scales:
  "\<forall>(key, config) \<in> set moodConfigs.
     \<exists>sc. map_of scales (scale config) = Some sc \<and> 7 \<le> length sc \<and>
          (pattern config = ''heroic'' \<longrightarrow> 10 \<le> length sc)"
  by (simp add: moodConfigs_def scales_def)

text \<open>
  Claim C10. For draws in the range of \<open>Math.random()\<close> and every registered mood
  configuration, the scale of the configuration is in the table, every index at which
  \<open>generateMelody\<close> reads it lies between 0 and its length minus one, and every element of
  the generated melody is a note of that scale (never \<open>undefined\<close>).
\<close>

theorem melody_index_safety:
  assumes "\<forall>i. 0 \<le> rnd i \<and> rnd i < 1"
  shows "\<forall>(key, config) \<in> set moodConfigs.
     \<exists>sc mel. map_of scales (scale config) = Some sc \<and>
       (\<forall>i \<in> set (melodyIndices (pattern config) (int (length sc)) rnd). 0 \<le> i \<and> i < int (length sc)) \<and>
       generateMelody config rnd = Some mel \<and>
       (\<forall>x \<in> set mel. \<exists>n \<in> set sc. x = Some n)"
proof (intro ballI, clarify)
  fix key config
  assume "(key, config) \<in> set moodConfigs"
  with registered_scales obtain sc where sc: "map_of scales (scale config) = Some sc"
    "7 \<le> length sc" "pattern config = ''heroic'' \<longrightarrow> 10 \<le> length sc"
    by fastforce
  have 1: "\<forall>i \<in> set (melodyIndices (pattern config) (int (length sc)) rnd). 0 \<le> i \<and> i < int (length sc)"
    using melodyIndices_in_range [OF assms, of "int (length sc)" "pattern config"] sc(2,3) by simp
  have 2: "generateMelody config rnd = Some (generateMelodyOn sc (pattern config) rnd)"
    by (simp add: generateMelody_def sc(1))
  have 3: "\<forall>x \<in> set (generateMelodyOn sc (pattern config) rnd). \<exists>n \<in> set sc. x = Some n"
    using generateMelodyOn_defined [OF assms sc(2,3)] by blast
  from sc(1) 1 2 3
  show "\<exists>sc mel. map_of scales (scale config) = Some sc \<and>
       (\<forall>i \<in> set (melodyIndices (pattern config) (int (length sc)) rnd). 0 \<le> i \<and> i < int (length sc)) \<and>
       generateMelody config rnd = Some mel \<and>
       (\<forall>x \<in> set mel. \<exists>n \<in> set sc. x = Some n)"
    by blast
qed

theorem melody_index_safety_witness:
  "(\<exists>sc mel. map_of scales ''major'' = Some sc \<and>
       (\<forall>i \<in> set (melodyIndices ''heroic'' (int (length sc)) (\<lambda>i. 1 / 2)). 0 \<le> i \<and> i < int (length sc)) \<and>
       generateMelody \<lparr>scale = ''major'', progression = ''epic'', rhythm = ''syncopated'',
                        tempo = 400, pattern = ''heroic''\<rparr> (\<lambda>i. 1 / 2) = Some mel \<and>
       (\<forall>x \<in> set mel. \<exists>n \<in> set sc. x = Some n)) \<and>
   generateMelody \<lparr>scale = ''major'', progression = ''epic'', rhythm = ''syncopated'',
                    tempo = 400, pattern = ''heroic''\<rparr> (\<lambda>i. 1 / 2) =
     Some [Some ''C4'', Some ''E4'', Some ''G4'', Some ''C5'', Some ''E5'',
           Some ''C5'', Some ''G4'', Some ''E4'', Some ''C4''] \<and>
   generateMelody \<lparr>scale = ''pentatonic'', progression = ''peaceful'', rhythm = ''slow'',
                    tempo = 800, pattern = ''gentle''\<rparr> (\<lambda>i. 1 / 2) =
     Some [Some ''A4'', Some ''G4'', Some ''E4'', Some ''D4'', Some ''C4'',
           Some ''C4'', Some ''C4'', Some ''C4'']"
proof -
  have h: "\<forall>i. 0 \<le> (\<lambda>i. 1 / 2 :: real) i \<and> (\<lambda>i. 1 / 2 :: real) i < 1" by simp
  have m: "(''epic'', \<lparr>scale = ''major'', progression = ''epic'', rhythm = ''syncopated'',
                        tempo = 400, pattern = ''heroic''\<rparr>) \<in> set moodConfigs"
    by (simp add: moodConfigs_def)
  have a: "\<exists>sc mel. map_of scales ''major'' = Some sc \<and>
       (\<forall>i \<in> set (melodyIndices ''heroic'' (int (length sc)) (\<lambda>i. 1 / 2)). 0 \<le> i \<and> i < int (length sc)) \<and>
       generateMelody \<lparr>scale = ''major'', progression = ''epic'', rhythm = ''syncopated'',
                        tempo = 400, pattern = ''heroic''\<rparr> (\<lambda>i. 1 / 2) = Some mel \<and>
       (\<forall>x \<in> set mel. \<exists>n \<in> set sc. x = Some n)"
    using melody_index_safety [OF h, THEN bspec, OF m] by simp
  have b: "generateMelody \<lparr>scale = ''major'', progression = ''epic'', rhythm = ''syncopated'',
                    tempo = 400, pattern = ''heroic''\<rparr> (\<lambda>i. 1 / 2) =
     Some [Some ''C4'', Some ''E4'', Some ''G4'', Some ''C5'', Some ''E5'',
           Some ''C5'', Some ''G4'', Some ''E4'', Some ''C4'']"
    by (simp add: generateMelody_def scales_def generateMelodyOn_def js_at_def js_or_def)
  have c: "generateMelody \<lparr>scale = ''pentatonic'', progression = ''peaceful'', rhythm = ''slow'',
                    tempo = 800, pattern = ''gentle''\<rparr> (\<lambda>i. 1 / 2) =
     Some [Some ''A4'', Some ''G4'', Some ''E4'', Some ''D4'', Some ''C4'',
           Some ''C4'', Some ''C4'', Some ''C4'']"
    by (simp add: generateMelody_def scales_def generateMelodyOn_def melodyIndices_def js_at_def
        numeral_eq_Suc)
  from a b c show ?thesis by (intro conjI)
qed


section \<open>Theorems: the composer\<close>

subsection \<open>What the operations do to the fields\<close>

lemma setTimeout_fields:
  "fst (setTimeout cb d s) = nextTimer s"
  "timers (snd (setTimeout cb d s)) = timers s @ [(nextTimer s, d, cb)]"
  "nextTimer (snd (setTimeout cb d s)) = Suc (nextTimer s)"
  "isPlaying (snd (setTimeout cb d s)) = isPlaying s"
  "intervalId (snd (setTimeout cb d s)) = intervalId s"
  "currentMood (snd (setTimeout cb d s)) = currentMood s"
  "currentComposition (snd (setTimeout cb d s)) = currentComposition s"
  "calls (snd (setTimeout cb d s)) = calls s"
  by (simp_all add: setTimeout_def)

lemma pressKey_fields:
  "timers (pressKey n s) = timers s" "nextTimer (pressKey n s) = nextTimer s"
  "isPlaying (pressKey n s) = isPlaying s" "intervalId (pressKey n s) = intervalId s"
  "currentMood (pressKey n s) = currentMood s"
  "currentComposition (pressKey n s) = currentComposition s"
  "calls (pressKey n s) = calls s @ [PressKey n]"
  by (simp_all add: pressKey_def)

lemma releaseKey_fields:
  "timers (releaseKey n s) = timers s" "nextTimer (releaseKey n s) = nextTimer s"
  "isPlaying (releaseKey n s) = isPlaying s" "intervalId (releaseKey n s) = intervalId s"
  "currentMood (releaseKey n s) = currentMood s"
  "currentComposition (releaseKey n s) = currentComposition s"
  "calls (releaseKey n s) = calls s @ [ReleaseKey n]"
  by (simp_all add: releaseKey_def)

lemma scheduleChord_fields:
  "isPlaying (scheduleChord n chord s) = isPlaying s"
  "intervalId (scheduleChord n chord s) = intervalId s"
  "currentMood (scheduleChord n chord s) = currentMood s"
  "currentComposition (scheduleChord n chord s) = currentComposition s"
  "calls (scheduleChord n chord s) = calls s"
  unfolding scheduleChord_def
  by (induction chord arbitrary: s) (simp_all add: setTimeout_fields)

lemma scheduleChord_nextTimer:
  "nextTimer (scheduleChord n chord s) = nextTimer s + length (filter (\<lambda>cn. Some cn \<noteq> n) chord)"
  unfolding scheduleChord_def
  by (induction chord arbitrary: s) (simp_all add: setTimeout_fields)

lemma scheduleChord_timers:
  "map snd (timers (scheduleChord n chord s)) =
     map snd (timers s) @ map (\<lambda>cn. (50, PressChordNote cn)) (filter (\<lambda>cn. Some cn \<noteq> n) chord)"
  unfolding scheduleChord_def
  by (induction chord arbitrary: s) (simp_all add: setTimeout_fields)

lemma scheduleChord_prefix:
  "\<exists>new. timers (scheduleChord n chord s) = timers s @ new \<and>
         (\<forall>t \<in> set new. nextTimer s \<le> fst t \<and> fst t < nextTimer (scheduleChord n chord s) \<and>
                          \<not> is_tick (snd (snd t)))"
  unfolding scheduleChord_def
proof (induction chord arbitrary: s)
  case Nil
  then show ?case by simp
next
  case (Cons cn chord)
  show ?case
  proof (cases "Some cn \<noteq> n")
    case False
    then show ?thesis using Cons.IH [of s] by simp
  next
    case True
    let ?s = "snd (setTimeout (PressChordNote cn) 50 s)"
    let ?f = "\<lambda>chordNote st. if Some chordNote \<noteq> n
                then snd (setTimeout (PressChordNote chordNote) 50 st) else st"
    from Cons.IH [of ?s] obtain new where
      new: "timers (fold ?f chord ?s) = timers ?s @ new"
        "\<forall>t \<in> set new. nextTimer ?s \<le> fst t \<and> fst t < nextTimer (fold ?f chord ?s) \<and>
              \<not> is_tick (snd (snd t))"
      by blast
    have le: "nextTimer ?s \<le> nextTimer (fold ?f chord ?s)"
      using scheduleChord_nextTimer [of n chord ?s] by (simp add: scheduleChord_def)
    have "timers (fold ?f (cn # chord) s) = timers s @ ((nextTimer s, 50, PressChordNote cn) # new)"
      using True new(1) by (simp add: setTimeout_fields)
    moreover have "\<forall>t \<in> set ((nextTimer s, 50, PressChordNote cn) # new).
        nextTimer s \<le> fst t \<and> fst t < nextTimer (fold ?f (cn # chord) s) \<and> \<not> is_tick (snd (snd t))"
      using True new(2) le by (auto simp: setTimeout_fields)
    ultimately show ?thesis by blast
  qed
qed

lemma pendingTicks_append:
  "timers s' = timers s @ new \<Longrightarrow>
   pendingTicks s' = pendingTicks s @ map fst (filter (\<lambda>t. is_tick (snd (snd t))) new)"
  by (simp add: pendingTicks_def)

lemma scheduleChord_pendingTicks: "pendingTicks (scheduleChord n chord s) = pendingTicks s"
proof -
  from scheduleChord_prefix [of n chord s] obtain new where
    new: "timers (scheduleChord n chord s) = timers s @ new" "\<forall>t \<in> set new. \<not> is_tick (snd (snd t))"
    by blast
  from new(2) have "filter (\<lambda>t. is_tick (snd (snd t))) new = []" by (simp add: filter_empty_conv)
  with pendingTicks_append [OF new(1)] show ?thesis by simp
qed

lemma scheduleChord_handles:
  assumes "\<forall>t \<in> set (timers s). fst t < nextTimer s"
  shows "\<forall>t \<in> set (timers (scheduleChord n chord s)). fst t < nextTimer (scheduleChord n chord s)"
proof -
  from scheduleChord_prefix [of n chord s] obtain new where
    new: "timers (scheduleChord n chord s) = timers s @ new"
      "\<forall>t \<in> set new. fst t < nextTimer (scheduleChord n chord s)"
    by blast
  have "nextTimer s \<le> nextTimer (scheduleChord n chord s)" by (simp add: scheduleChord_nextTimer)
  with assms new show ?thesis by fastforce
qed

lemma pendingTicks_remove:
  "timers s' = filter (\<lambda>t. fst t \<noteq> h) (timers s) \<Longrightarrow>
   pendingTicks s' = filter (\<lambda>x. x \<noteq> h) (pendingTicks s)"
  unfolding pendingTicks_def
  by (induction "timers s" arbitrary: s s') (simp, simp add: filter_map comp_def conj_commute)

lemma clearTimeout_fields:
  "timers (clearTimeout h s) = filter (\<lambda>t. fst t \<noteq> h) (timers s)"
  "nextTimer (clearTimeout h s) = nextTimer s"
  "isPlaying (clearTimeout h s) = isPlaying s"
  "intervalId (clearTimeout h s) = intervalId s"
  "currentComposition (clearTimeout h s) = currentComposition s"
  "calls (clearTimeout h s) = calls s"
  "pendingTicks (clearTimeout h s) = filter (\<lambda>x. x \<noteq> h) (pendingTicks s)"
  by (simp_all add: clearTimeout_def pendingTicks_remove [of _ h s])

lemma stop_fields:
  "isPlaying (stop s) = False" "currentMood (stop s) = None"
  "nextTimer (stop s) = nextTimer s" "calls (stop s) = calls s"
  "currentComposition (stop s) = currentComposition s"
  "set (timers (stop s)) \<subseteq> set (timers s)"
  by (auto simp: stop_def Let_def clearTimeout_fields split: option.splits)

lemma stop_pendingTicks:
  "pendingTicks (stop s) =
     (case intervalId s of None \<Rightarrow> pendingTicks s
      | Some h \<Rightarrow> if h = 0 then pendingTicks s else filter (\<lambda>x. x \<noteq> h) (pendingTicks s))"
proof -
  have "pendingTicks (s\<lparr>isPlaying := False, currentMood := None\<rparr>) = pendingTicks s"
    by (simp add: pendingTicks_def)
  moreover have "pendingTicks ((clearTimeout h (s\<lparr>isPlaying := False\<rparr>))
      \<lparr>intervalId := None, currentMood := None\<rparr>) = filter (\<lambda>x. x \<noteq> h) (pendingTicks s)" for h
    by (simp add: pendingTicks_def clearTimeout_def filter_map comp_def conj_commute)
  ultimately show ?thesis
    by (simp add: stop_def Let_def split: option.splits)
qed

lemmas composer_defs = compose_def stop_def playComposition_def playNextNote_def chordStep_def
  chordTriggered_def scheduleChord_def setTimeout_def clearTimeout_def pressKey_def releaseKey_def
  newComposer_def generateMelody_def generateMelodyOn_def melodyIndices_def js_at_def
  moodConfigs_def scales_def chordProgressions_def rhythms_def pendingTicks_def Let_def

lemma spring_running_fields:
  "isPlaying spring_running" "currentComposition spring_running = Some spring_composition"
  "calls spring_running = [PressKey (Some ''C4'')]"
  "timers spring_running = [(1, 320, ReleaseMelodyNote (Some ''C4'')), (2, 400, PlayNextNote 1 0 1)]"
  "intervalId spring_running = Some 2" "nextTimer spring_running = 3"
  by (simp_all add: spring_running_def spring_composition_def composer_defs upt8)

lemma epic_running_fields:
  "isPlaying epic_running" "intervalId epic_running = Some 4" "nextTimer epic_running = 5"
  "timers epic_running = [(1, 50, PressChordNote ''E4''), (2, 50, PressChordNote ''G4''),
     (3, 240, ReleaseMelodyNote (Some ''C4'')), (4, 300, PlayNextNote 1 1 1)]"
  "pendingTicks epic_running = [4]"
  by (simp_all add: epic_running_def run_def composer_defs js_or_def)

subsection \<open>One tick\<close>

lemma playNextNote_complete:
  assumes "isPlaying s" "currentComposition s = Some c" "chords c = Some chs"
    "rhythmPattern c = Some rh" "mi < length (melody c)" "ci < length chs" "ri < length rh"
  shows "playNextNote r mi ci ri s =
    (let n = melody c ! mi;
         s1 = pressKey n s;
         s2 = (if chordTriggered r then scheduleChord n (chs ! ci) s1 else s1);
         ci' = (if chordTriggered r then (ci + 1) mod length chs else ci);
         s3 = snd (setTimeout (ReleaseMelodyNote n) (real (rh ! ri) * 0.8) s2);
         tick = PlayNextNote ((mi + 1) mod length (melody c)) ci' ((ri + 1) mod length rh)
     in (snd (setTimeout tick (real (rh ! ri)) s3))\<lparr>intervalId := Some (nextTimer s3)\<rparr>)"
  using assms by (simp add: playNextNote_def chordStep_def Let_def setTimeout_fields split_beta)

subsection \<open>At most one scheduling loop\<close>

lemma quiet_single_loop: "quiet s \<Longrightarrow> single_loop s"
  by (simp add: quiet_def single_loop_def)

lemma quiet_pressKey: "quiet s \<Longrightarrow> quiet (pressKey n s)"
  by (simp add: quiet_def pressKey_def pendingTicks_def)

lemma quiet_scheduleChord: "quiet s \<Longrightarrow> quiet (scheduleChord n chord s)"
  using scheduleChord_handles [of s n chord]
  by (simp add: quiet_def scheduleChord_pendingTicks scheduleChord_nextTimer)

lemma quiet_chordStep:
  "quiet s \<Longrightarrow> chordStep r n ci c s = Some (s2, ci') \<Longrightarrow> quiet s2 \<and> isPlaying s2 = isPlaying s"
  by (auto simp: chordStep_def quiet_scheduleChord scheduleChord_fields
      split: if_splits option.splits)

text \<open>The last two timers of a complete tick.\<close>

lemma tick_tail_single_loop:
  assumes "quiet s2" "isPlaying s2"
  shows "single_loop
    ((snd (setTimeout (PlayNextNote a b c) d2 (snd (setTimeout (ReleaseMelodyNote n) d1 s2))))
       \<lparr>intervalId := Some (fst (setTimeout (PlayNextNote a b c) d2
                                 (snd (setTimeout (ReleaseMelodyNote n) d1 s2))))\<rparr>)"
  using assms
  by (auto simp: quiet_def single_loop_def setTimeout_def pendingTicks_def)

lemma playNextNote_single_loop:
  assumes "quiet s"
  shows "single_loop (playNextNote r mi ci ri s)"
proof (cases "isPlaying s")
  case False
  then show ?thesis using assms by (simp add: playNextNote_def quiet_single_loop)
next
  case playing: True
  show ?thesis
  proof (cases "currentComposition s")
    case None
    then show ?thesis using assms by (simp add: playNextNote_def quiet_single_loop)
  next
    case (Some c)
    let ?n = "if mi < length (melody c) then melody c ! mi else None"
    let ?s1 = "pressKey ?n s"
    have q1: "quiet ?s1" using assms by (rule quiet_pressKey)
    have p1: "isPlaying ?s1" using playing by (simp add: pressKey_fields)
    show ?thesis
    proof (cases "chordStep r ?n ci c ?s1")
      case None
      then show ?thesis
        using playing Some q1 by (simp add: playNextNote_def Let_def quiet_single_loop)
    next
      case cs: (Some p)
      obtain s2 ci' where p: "p = (s2, ci')" by (cases p)
      from quiet_chordStep [OF q1 cs [unfolded p]] p1
      have q2: "quiet s2" and p2: "isPlaying s2" by simp_all
      show ?thesis
      proof (cases "rhythmPattern c")
        case None
        then show ?thesis
          using playing Some cs p q2 by (simp add: playNextNote_def Let_def quiet_single_loop)
      next
        case rh: (Some rh)
        show ?thesis
        proof (cases "ri < length rh")
          case False
          then show ?thesis
            using playing Some cs p q2 rh by (simp add: playNextNote_def Let_def quiet_single_loop)
        next
          case True
          then show ?thesis
            using playing Some cs p rh tick_tail_single_loop [OF q2 p2]
            by (simp add: playNextNote_def Let_def split_beta)
        qed
      qed
    qed
  qed
qed

lemma stop_quiet:
  assumes "single_loop s"
  shows "quiet (stop s)"
proof -
  from assms have nt: "nextTimer s \<noteq> 0" and hb: "\<forall>t \<in> set (timers s). fst t < nextTimer s"
    by (simp_all add: single_loop_def)
  from assms have "pendingTicks (stop s) = []"
    by (auto simp: single_loop_def stop_pendingTicks split: option.splits)
  moreover have "\<forall>t \<in> set (timers (stop s)). fst t < nextTimer (stop s)"
  proof
    fix t assume "t \<in> set (timers (stop s))"
    with stop_fields(6) [of s] have "t \<in> set (timers s)" by blast
    with hb show "fst t < nextTimer (stop s)" by (simp add: stop_fields)
  qed
  ultimately show ?thesis using nt by (simp add: quiet_def stop_fields)
qed

lemma quiet_before_loop: "single_loop s \<Longrightarrow> quiet (if isPlaying s then stop s else s)"
  by (auto simp: stop_quiet) (auto simp: single_loop_def quiet_def)

lemma quiet_update:
  "quiet s \<Longrightarrow> quiet (s\<lparr>currentMood := m, isPlaying := p\<rparr>)"
  "quiet s \<Longrightarrow> quiet (s\<lparr>currentComposition := c\<rparr>)"
  by (simp_all add: quiet_def pendingTicks_def)

lemma compose_single_loop:
  assumes "single_loop s"
  shows "single_loop (compose moodKey rnd r s)"
proof -
  let ?s1 = "if isPlaying s then stop s else s"
  have q1: "quiet ?s1" using assms by (rule quiet_before_loop)
  show ?thesis
  proof (cases "map_of moodConfigs moodKey")
    case None
    then show ?thesis using q1 by (simp add: compose_def Let_def quiet_single_loop)
  next
    case (Some config)
    let ?s2 = "?s1\<lparr>currentMood := Some config, isPlaying := True\<rparr>"
    have q2: "quiet ?s2" using q1 by (rule quiet_update)
    show ?thesis
    proof (cases "generateMelody config rnd")
      case None
      then show ?thesis
        using Some quiet_single_loop [OF q2] by (simp add: compose_def Let_def)
    next
      case mel: (Some mel)
      let ?c = "\<lparr>melody = mel, chords = map_of chordProgressions (progression config),
                 rhythmPattern = map_of rhythms (rhythm config), comp_tempo = tempo config\<rparr>"
      have "quiet (?s2\<lparr>currentComposition := Some ?c\<rparr>)" using q2 by (rule quiet_update)
      then have "single_loop (playNextNote r 0 0 0 (?s2\<lparr>currentComposition := Some ?c\<rparr>))"
        by (rule playNextNote_single_loop)
      then show ?thesis using Some mel by (simp add: compose_def Let_def playComposition_def)
    qed
  qed
qed

lemma single_loop_calls:
  "single_loop s \<Longrightarrow> single_loop (pressKey n s)"
  "single_loop s \<Longrightarrow> single_loop (releaseKey n s)"
  by (simp_all add: single_loop_def pressKey_def releaseKey_def pendingTicks_def)

lemma find_handle:
  "find (\<lambda>t. fst t = h) ts = Some (h', d, cb) \<Longrightarrow> h' = h \<and> (h, d, cb) \<in> set ts"
  by (induction ts) (auto split: if_splits)

lemma fire_single_loop:
  assumes "single_loop s"
  shows "single_loop (fire h r s)"
proof (cases "find (\<lambda>t. fst t = h) (timers s)")
  case None
  then show ?thesis using assms by (simp add: fire_def)
next
  case (Some t)
  obtain h' d cb where t: "t = (h', d, cb)" by (cases t)
  from find_handle [OF Some [unfolded t]] have mem: "(h, d, cb) \<in> set (timers s)" by simp
  let ?s1 = "s\<lparr>timers := filter (\<lambda>t. fst t \<noteq> h) (timers s)\<rparr>"
  have pt: "pendingTicks ?s1 = filter (\<lambda>x. x \<noteq> h) (pendingTicks s)"
    by (rule pendingTicks_remove) simp
  have nt: "nextTimer ?s1 \<noteq> 0" and hb: "\<forall>t \<in> set (timers ?s1). fst t < nextTimer ?s1"
    using assms by (auto simp: single_loop_def)
  have s1: "single_loop ?s1"
    using assms nt hb unfolding single_loop_def pt by auto
  show ?thesis
  proof (cases cb)
    case (PlayNextNote mi ci ri)
    with mem have "h \<in> set (pendingTicks s)" by (force simp: pendingTicks_def)
    with assms have "pendingTicks s = [h]" by (auto simp: single_loop_def)
    with pt have "pendingTicks ?s1 = []" by simp
    with nt hb have "quiet ?s1" by (simp add: quiet_def)
    then have "single_loop (playNextNote r mi ci ri ?s1)" by (rule playNextNote_single_loop)
    then show ?thesis using Some t PlayNextNote by (simp add: fire_def)
  next
    case (PressChordNote n)
    then show ?thesis using Some t single_loop_calls(1) [OF s1] by (simp add: fire_def)
  next
    case (ReleaseMelodyNote n)
    then show ?thesis using Some t single_loop_calls(2) [OF s1] by (simp add: fire_def)
  qed
qed

lemma stop_single_loop: "single_loop s \<Longrightarrow> single_loop (stop s)"
  by (rule quiet_single_loop [OF stop_quiet])

lemma run_single_loop: "single_loop s \<Longrightarrow> single_loop (run evs s)"
  unfolding run_def
proof (induction evs arbitrary: s)
  case Nil
  then show ?case by simp
next
  case (Cons e evs)
  have "single_loop (step e s)"
    using Cons.prems
    by (cases e) (simp_all add: compose_single_loop stop_single_loop fire_single_loop)
  then show ?case by (simp add: Cons.IH)
qed

lemma single_loop_newComposer: "single_loop newComposer"
  by (simp add: single_loop_def newComposer_def pendingTicks_def)

lemma single_loop_at_most_one: "single_loop s \<Longrightarrow> length (pendingTicks s) \<le> 1"
  by (auto simp: single_loop_def)

text \<open>A tick and a call of compose keep old timers or add timers with fresh handles.\<close>

lemma old_or_fresh_refl: "old_or_fresh s s"
  by (simp add: old_or_fresh_def)

lemma old_or_fresh_trans: "old_or_fresh s s' \<Longrightarrow> old_or_fresh s' s'' \<Longrightarrow> old_or_fresh s s''"
  unfolding old_or_fresh_def by (meson order_trans)

lemma old_or_fresh_same:
  "timers s' = timers s \<Longrightarrow> nextTimer s' = nextTimer s \<Longrightarrow> old_or_fresh s s'"
  by (simp add: old_or_fresh_def)

lemma old_or_fresh_setTimeout: "old_or_fresh s (snd (setTimeout cb d s))"
  by (auto simp: old_or_fresh_def setTimeout_def)

lemma old_or_fresh_scheduleChord: "old_or_fresh s (scheduleChord n chord s)"
proof -
  from scheduleChord_prefix [of n chord s] obtain new where
    "timers (scheduleChord n chord s) = timers s @ new" "\<forall>t \<in> set new. nextTimer s \<le> fst t"
    by blast
  then show ?thesis by (auto simp: old_or_fresh_def scheduleChord_nextTimer)
qed

lemma old_or_fresh_chordStep:
  "chordStep r n ci c s = Some (s2, ci') \<Longrightarrow> old_or_fresh s s2"
  by (auto simp: chordStep_def old_or_fresh_scheduleChord old_or_fresh_refl
      split: if_splits option.splits)

lemma old_or_fresh_intervalId: "old_or_fresh s s' \<Longrightarrow> old_or_fresh s (s'\<lparr>intervalId := x\<rparr>)"
  by (simp add: old_or_fresh_def)

lemma old_or_fresh_playNextNote: "old_or_fresh s (playNextNote r mi ci ri s)"
proof (cases "isPlaying s")
  case False
  then show ?thesis by (simp add: playNextNote_def old_or_fresh_refl)
next
  case playing: True
  show ?thesis
  proof (cases "currentComposition s")
    case None
    then show ?thesis by (simp add: playNextNote_def old_or_fresh_refl)
  next
    case (Some c)
    let ?n = "if mi < length (melody c) then melody c ! mi else None"
    let ?s1 = "pressKey ?n s"
    have o1: "old_or_fresh s ?s1" by (rule old_or_fresh_same) (simp_all add: pressKey_fields)
    show ?thesis
    proof (cases "chordStep r ?n ci c ?s1")
      case None
      then show ?thesis using playing Some o1 by (simp add: playNextNote_def Let_def)
    next
      case cs: (Some p)
      obtain s2 ci' where p: "p = (s2, ci')" by (cases p)
      have o2: "old_or_fresh s s2"
        using o1 old_or_fresh_chordStep [OF cs [unfolded p]] by (rule old_or_fresh_trans)
      show ?thesis
      proof (cases "rhythmPattern c")
        case None
        then show ?thesis using playing Some cs p o2 by (simp add: playNextNote_def Let_def)
      next
        case rh: (Some rh)
        show ?thesis
        proof (cases "ri < length rh")
          case False
          then show ?thesis using playing Some cs p o2 rh by (simp add: playNextNote_def Let_def)
        next
          case True
          let ?s3 = "snd (setTimeout (ReleaseMelodyNote ?n) (real (rh ! ri) * 0.8) s2)"
          let ?tick = "PlayNextNote ((mi + 1) mod length (melody c)) ci' ((ri + 1) mod length rh)"
          have "old_or_fresh s ?s3"
            using o2 old_or_fresh_setTimeout by (rule old_or_fresh_trans)
          then have "old_or_fresh s (snd (setTimeout ?tick (real (rh ! ri)) ?s3))"
            using old_or_fresh_setTimeout by (rule old_or_fresh_trans)
          then have "old_or_fresh s ((snd (setTimeout ?tick (real (rh ! ri)) ?s3))
              \<lparr>intervalId := Some (fst (setTimeout ?tick (real (rh ! ri)) ?s3))\<rparr>)"
            by (rule old_or_fresh_intervalId)
          then show ?thesis
            using playing Some cs p rh True by (simp add: playNextNote_def Let_def split_beta)
        qed
      qed
    qed
  qed
qed

lemma old_or_fresh_compose:
  "old_or_fresh (if isPlaying s then stop s else s) (compose moodKey rnd r s)"
proof -
  let ?s1 = "if isPlaying s then stop s else s"
  show ?thesis
  proof (cases "map_of moodConfigs moodKey")
    case None
    then show ?thesis by (simp add: compose_def Let_def old_or_fresh_refl)
  next
    case (Some config)
    let ?s2 = "?s1\<lparr>currentMood := Some config, isPlaying := True\<rparr>"
    have o2: "old_or_fresh ?s1 ?s2" by (rule old_or_fresh_same) simp_all
    show ?thesis
    proof (cases "generateMelody config rnd")
      case None
      then show ?thesis using Some o2 by (simp add: compose_def Let_def)
    next
      case mel: (Some mel)
      let ?c = "\<lparr>melody = mel, chords = map_of chordProgressions (progression config),
                 rhythmPattern = map_of rhythms (rhythm config), comp_tempo = tempo config\<rparr>"
      let ?s3 = "?s2\<lparr>currentComposition := Some ?c\<rparr>"
      have "old_or_fresh ?s1 ?s3" by (rule old_or_fresh_same) simp_all
      then have "old_or_fresh ?s1 (playNextNote r 0 0 0 ?s3)"
        using old_or_fresh_playNextNote by (rule old_or_fresh_trans)
      then show ?thesis using Some mel by (simp add: compose_def Let_def playComposition_def)
    qed
  qed
qed

lemma compose_cancels_prior_tick:
  assumes sl: "single_loop s" and h: "h \<in> set (pendingTicks s)"
  shows "h \<notin> fst ` set (timers (compose moodKey rnd r s))"
proof
  assume "h \<in> fst ` set (timers (compose moodKey rnd r s))"
  then obtain t where t: "t \<in> set (timers (compose moodKey rnd r s))" "fst t = h" by auto
  from sl h have playing: "isPlaying s" and id: "intervalId s = Some h" and h0: "h \<noteq> 0"
    by (auto simp: single_loop_def)
  from h obtain t0 where "t0 \<in> set (timers s)" "fst t0 = h" by (auto simp: pendingTicks_def)
  with sl have below: "h < nextTimer s" by (auto simp: single_loop_def)
  have gone: "\<forall>t \<in> set (timers (stop s)). fst t \<noteq> h"
    using id h0 by (simp add: stop_def Let_def clearTimeout_def)
  from old_or_fresh_compose [of s moodKey rnd r] playing t(1)
  have "t \<in> set (timers (stop s)) \<or> nextTimer (stop s) \<le> fst t"
    by (simp add: old_or_fresh_def)
  with gone t(2) below show False by (auto simp: stop_fields)
qed

text \<open>
  Claim C5. After any sequence of compose calls, stop calls and firing timers on a fresh
  composer, at most one next-tick timer is pending. A call of compose in such a state
  starts its loop from a state with no pending tick (it has stopped a running composition
  first), the tick that was pending before the call is not pending after it, and at most
  one tick is pending after it.
\<close>

theorem single_composition:
  "length (pendingTicks (run evs newComposer)) \<le> 1 \<and>
   pendingTicks (if isPlaying (run evs newComposer) then stop (run evs newComposer)
                 else run evs newComposer) = [] \<and>
   (\<forall>h \<in> set (pendingTicks (run evs newComposer)).
      h \<notin> fst ` set (timers (compose moodKey rnd r (run evs newComposer)))) \<and>
   length (pendingTicks (compose moodKey rnd r (run evs newComposer))) \<le> 1"
proof -
  have sl: "single_loop (run evs newComposer)"
    by (rule run_single_loop [OF single_loop_newComposer])
  have 1: "length (pendingTicks (run evs newComposer)) \<le> 1"
    using sl by (rule single_loop_at_most_one)
  have 2: "pendingTicks (if isPlaying (run evs newComposer) then stop (run evs newComposer)
                 else run evs newComposer) = []"
    using quiet_before_loop [OF sl] by (simp add: quiet_def)
  have 3: "\<forall>h \<in> set (pendingTicks (run evs newComposer)).
      h \<notin> fst ` set (timers (compose moodKey rnd r (run evs newComposer)))"
    using compose_cancels_prior_tick [OF sl] by blast
  have 4: "length (pendingTicks (compose moodKey rnd r (run evs newComposer))) \<le> 1"
    using compose_single_loop [OF sl] by (rule single_loop_at_most_one)
  from 1 2 3 4 show ?thesis by (intro conjI)
qed

theorem single_composition_witness:
  "pendingTicks (run [Compose ''epic'' (\<lambda>i. 0) 0.9] newComposer) = [4] \<and>
   length (pendingTicks (run [Compose ''epic'' (\<lambda>i. 0) 0.9] newComposer)) \<le> 1 \<and>
   pendingTicks (stop (run [Compose ''epic'' (\<lambda>i. 0) 0.9] newComposer)) = [] \<and>
   4 \<notin> fst ` set (timers (compose ''joy'' (\<lambda>i. 0) 0 (run [Compose ''epic'' (\<lambda>i. 0) 0.9] newComposer))) \<and>
   length (pendingTicks (compose ''joy'' (\<lambda>i. 0) 0 (run [Compose ''epic'' (\<lambda>i. 0) 0.9] newComposer))) \<le> 1"
  using single_composition [of "[Compose ''epic'' (\<lambda>i. 0) 0.9]" "''joy''" "\<lambda>i. 0" 0]
    epic_running_fields
  by (simp add: epic_running_def [symmetric])

subsection \<open>Every tick that runs is ready\<close>

lemma quiet_no_tick: "quiet s \<Longrightarrow> (h, d, PlayNextNote mi ci ri) \<notin> set (timers s)"
  by (force simp: quiet_def pendingTicks_def filter_empty_conv)

lemma quiet_ticks_ready: "quiet s \<Longrightarrow> ticks_ready s"
  by (simp add: ticks_ready_def quiet_no_tick)

lemma scheduleChord_no_tick:
  "(h, d, PlayNextNote a b c) \<in> set (timers (scheduleChord n chord s)) \<Longrightarrow>
   (h, d, PlayNextNote a b c) \<in> set (timers s)"
proof -
  assume m: "(h, d, PlayNextNote a b c) \<in> set (timers (scheduleChord n chord s))"
  from scheduleChord_prefix [of n chord s] obtain new where
    new: "timers (scheduleChord n chord s) = timers s @ new" "\<forall>t \<in> set new. \<not> is_tick (snd (snd t))"
    by blast
  from new(2) have "(h, d, PlayNextNote a b c) \<notin> set new" by force
  with m new(1) show ?thesis by simp
qed

lemma playNextNote_ticks_ready:
  assumes q: "quiet s" and r: "tick_ready s mi ci ri"
  shows "ticks_ready (playNextNote r' mi ci ri s)"
proof -
  from r obtain c chs rh where c: "isPlaying s" "currentComposition s = Some c"
    "chords c = Some chs" "rhythmPattern c = Some rh"
    "mi < length (melody c)" "ci < length chs" "ri < length rh"
    by (auto simp: tick_ready_def)
  let ?n = "melody c ! mi"
  let ?s1 = "pressKey ?n s"
  let ?s2 = "if chordTriggered r' then scheduleChord ?n (chs ! ci) ?s1 else ?s1"
  let ?ci = "if chordTriggered r' then (ci + 1) mod length chs else ci"
  let ?s3 = "snd (setTimeout (ReleaseMelodyNote ?n) (real (rh ! ri) * 0.8) ?s2)"
  let ?mi = "(mi + 1) mod length (melody c)"
  let ?ri = "(ri + 1) mod length rh"
  let ?res = "(snd (setTimeout (PlayNextNote ?mi ?ci ?ri) (real (rh ! ri)) ?s3))\<lparr>intervalId := Some (nextTimer ?s3)\<rparr>"
  have res: "playNextNote r' mi ci ri s = ?res"
    using playNextNote_complete [OF c] by (simp add: Let_def)
  have f: "isPlaying ?res" "currentComposition ?res = Some c"
    using c(1,2) by (simp_all add: setTimeout_fields scheduleChord_fields pressKey_fields)
  have pos: "0 < length (melody c)" "0 < length chs" "0 < length rh"
    using c(5,6,7) by auto
  have "?mi < length (melody c)" "?ci < length chs" "?ri < length rh"
    using pos c(6) by (simp_all only: mod_less_divisor if_split) simp
  with f c(3,4) have ready: "tick_ready ?res ?mi ?ci ?ri"
    unfolding tick_ready_def by blast
  have only: "(h, d, PlayNextNote a b e) \<in> set (timers ?res) \<Longrightarrow> a = ?mi \<and> b = ?ci \<and> e = ?ri"
    for h d a b e
  proof -
    assume m: "(h, d, PlayNextNote a b e) \<in> set (timers ?res)"
    have no2: "(h, d, PlayNextNote a b e) \<notin> set (timers ?s2)"
      using quiet_no_tick [OF q, of h d a b e] scheduleChord_no_tick [of h d a b e ?n "chs ! ci" ?s1]
      by (auto simp: pressKey_fields)
    from m no2 show ?thesis by (simp add: setTimeout_fields)
  qed
  show ?thesis
    unfolding res ticks_ready_def using only ready by blast
qed

lemma gentle_walk_length: "length (gentle_walk len k i rnd c) = k"
  by (induction k arbitrary: i c) simp_all

lemma generateMelodyOn_nonempty: "generateMelodyOn sc pat rnd \<noteq> []"
proof (cases "pat = ''heroic''")
  case True
  then show ?thesis by (simp add: generateMelodyOn_def)
next
  case False
  have "gentle_walk len 8 i rnd c \<noteq> []" for len i c
    using gentle_walk_length [of len 8 i rnd c] by auto
  then have "length (melodyIndices pat (int (length sc)) rnd) \<noteq> 0"
    by (simp add: melodyIndices_def)
  then show ?thesis using False by (simp add: generateMelodyOn_def)
qed

lemma registered_tables:
  "\<forall>(key, config) \<in> set moodConfigs.
     \<exists>chs rh. map_of chordProgressions (progression config) = Some chs \<and> chs \<noteq> [] \<and>
              map_of rhythms (rhythm config) = Some rh \<and> rh \<noteq> []"
  by (simp add: moodConfigs_def chordProgressions_def rhythms_def)

text \<open>The first tick of a composition runs on a state that is ready for it.\<close>

lemma compose_first_tick:
  assumes "map_of moodConfigs moodKey = Some config"
  shows "\<exists>mel s3. generateMelody config rnd = Some mel \<and> tick_ready s3 0 0 0 \<and>
           timers s3 = timers (if isPlaying s then stop s else s) \<and>
           nextTimer s3 = nextTimer s \<and> calls s3 = calls s \<and>
           compose moodKey rnd r s = playNextNote r 0 0 0 s3"
proof -
  from assms have mem: "(moodKey, config) \<in> set moodConfigs" by (rule map_of_SomeD)
  with registered_tables obtain chs rh where
    t: "map_of chordProgressions (progression config) = Some chs" "chs \<noteq> []"
       "map_of rhythms (rhythm config) = Some rh" "rh \<noteq> []"
    by fastforce
  from mem registered_scales obtain sc where sc: "map_of scales (scale config) = Some sc"
    by fastforce
  let ?mel = "generateMelodyOn sc (pattern config) rnd"
  have gm: "generateMelody config rnd = Some ?mel" by (simp add: generateMelody_def sc)
  let ?s1 = "if isPlaying s then stop s else s"
  let ?s3 = "?s1\<lparr>currentMood := Some config, isPlaying := True,
      currentComposition := Some \<lparr>melody = ?mel, chords = Some chs, rhythmPattern = Some rh,
                                  comp_tempo = tempo config\<rparr>\<rparr>"
  have "tick_ready ?s3 0 0 0"
    using t(2,4) generateMelodyOn_nonempty [of sc "pattern config" rnd] by (simp add: tick_ready_def)
  moreover have "compose moodKey rnd r s = playNextNote r 0 0 0 ?s3"
    using assms gm t by (simp add: compose_def Let_def playComposition_def)
  moreover have "timers ?s3 = timers ?s1" "nextTimer ?s3 = nextTimer s" "calls ?s3 = calls s"
    by (simp_all add: stop_fields)
  ultimately show ?thesis using gm by blast
qed

lemma compose_ticks_ready:
  assumes "single_loop s"
  shows "ticks_ready (compose moodKey rnd r s)"
proof (cases "map_of moodConfigs moodKey")
  case None
  then have "compose moodKey rnd r s = (if isPlaying s then stop s else s)"
    by (simp add: compose_def Let_def)
  then show ?thesis using quiet_before_loop [OF assms] by (simp add: quiet_ticks_ready)
next
  case (Some config)
  from compose_first_tick [OF Some, of rnd s r] obtain s3 where
    s3: "tick_ready s3 0 0 0" "timers s3 = timers (if isPlaying s then stop s else s)"
      "nextTimer s3 = nextTimer s" "compose moodKey rnd r s = playNextNote r 0 0 0 s3"
    by blast
  have "quiet s3"
    using quiet_before_loop [OF assms] s3(2,3)
    by (simp add: quiet_def pendingTicks_def stop_fields split: if_splits)
  then show ?thesis unfolding s3(4) using s3(1) by (rule playNextNote_ticks_ready)
qed

lemma ticks_ready_subset:
  assumes "ticks_ready s" "set (timers s') \<subseteq> set (timers s)"
    "isPlaying s' = isPlaying s" "currentComposition s' = currentComposition s"
  shows "ticks_ready s'"
  using assms unfolding ticks_ready_def tick_ready_def by (metis subsetD)

lemma fire_ticks_ready:
  assumes sl: "single_loop s" and tr: "ticks_ready s"
  shows "ticks_ready (fire h r s)"
proof (cases "find (\<lambda>t. fst t = h) (timers s)")
  case None
  then show ?thesis using tr by (simp add: fire_def)
next
  case (Some t)
  obtain h' d cb where t: "t = (h', d, cb)" by (cases t)
  from find_handle [OF Some [unfolded t]] have mem: "(h, d, cb) \<in> set (timers s)" by simp
  let ?s1 = "s\<lparr>timers := filter (\<lambda>t. fst t \<noteq> h) (timers s)\<rparr>"
  have tr1: "ticks_ready ?s1" using tr by (rule ticks_ready_subset) simp_all
  show ?thesis
  proof (cases cb)
    case (PlayNextNote mi ci ri)
    with mem have "h \<in> set (pendingTicks s)" by (force simp: pendingTicks_def)
    with sl have "pendingTicks s = [h]" by (auto simp: single_loop_def)
    moreover have "pendingTicks ?s1 = filter (\<lambda>x. x \<noteq> h) (pendingTicks s)"
      by (rule pendingTicks_remove) simp
    ultimately have "pendingTicks ?s1 = []" by simp
    with sl have q: "quiet ?s1" by (auto simp: quiet_def single_loop_def)
    from tr mem PlayNextNote have "tick_ready s mi ci ri" by (auto simp: ticks_ready_def)
    then have "tick_ready ?s1 mi ci ri" by (simp add: tick_ready_def)
    with q have "ticks_ready (playNextNote r mi ci ri ?s1)" by (rule playNextNote_ticks_ready)
    then show ?thesis using Some t PlayNextNote by (simp add: fire_def)
  next
    case (PressChordNote n)
    have "ticks_ready (pressKey (Some n) ?s1)"
      using tr1 by (rule ticks_ready_subset) (simp_all add: pressKey_fields)
    then show ?thesis using Some t PressChordNote by (simp add: fire_def)
  next
    case (ReleaseMelodyNote n)
    have "ticks_ready (releaseKey n ?s1)"
      using tr1 by (rule ticks_ready_subset) (simp_all add: releaseKey_fields)
    then show ?thesis using Some t ReleaseMelodyNote by (simp add: fire_def)
  qed
qed

lemma run_ticks_ready:
  "single_loop s \<Longrightarrow> ticks_ready s \<Longrightarrow> ticks_ready (run evs s)"
  unfolding run_def
proof (induction evs arbitrary: s)
  case Nil
  then show ?case by simp
next
  case (Cons e evs)
  have "single_loop (step e s)"
    using Cons.prems(1)
    by (cases e) (simp_all add: compose_single_loop stop_single_loop fire_single_loop)
  moreover have "ticks_ready (step e s)"
    using Cons.prems
    by (cases e) (simp_all add: compose_ticks_ready fire_ticks_ready quiet_ticks_ready stop_quiet)
  ultimately show ?case by (simp add: Cons.IH)
qed

text \<open>
  Every tick that a timer starts runs on a state that is ready for it: the composer is
  playing and the cursors of the tick lie inside the melody, the chords and the rhythm.
\<close>

lemma compose_wellformed:
  assumes "(h, d, PlayNextNote mi ci ri) \<in> set (timers (run evs newComposer))"
  shows "tick_ready (run evs newComposer) mi ci ri"
proof -
  have "ticks_ready newComposer" by (simp add: ticks_ready_def newComposer_def)
  with single_loop_newComposer have "ticks_ready (run evs newComposer)" by (rule run_ticks_ready)
  with assms show ?thesis by (auto simp: ticks_ready_def)
qed

subsection \<open>Handles of pending timers are distinct\<close>

lemma handles_ok_cong:
  "timers s' = timers s \<Longrightarrow> nextTimer s' = nextTimer s \<Longrightarrow> handles_ok s \<Longrightarrow> handles_ok s'"
  by (simp add: handles_ok_def)

lemma handles_ok_filter:
  "handles_ok s \<Longrightarrow> timers s' = filter P (timers s) \<Longrightarrow> nextTimer s' = nextTimer s \<Longrightarrow>
   handles_ok s'"
  by (simp add: handles_ok_def distinct_map_filter)

lemma handles_ok_setTimeout: "handles_ok s \<Longrightarrow> handles_ok (snd (setTimeout cb d s))"
  by (fastforce simp: handles_ok_def setTimeout_def)

lemma handles_ok_scheduleChord: "handles_ok s \<Longrightarrow> handles_ok (scheduleChord n chord s)"
  unfolding scheduleChord_def
  by (induction chord arbitrary: s) (simp_all add: handles_ok_setTimeout)

lemma handles_ok_chordStep:
  "handles_ok s \<Longrightarrow> chordStep r n ci c s = Some (s2, ci') \<Longrightarrow> handles_ok s2"
  by (auto simp: chordStep_def handles_ok_scheduleChord split: if_splits option.splits)

lemma handles_ok_intervalId: "handles_ok s \<Longrightarrow> handles_ok (s\<lparr>intervalId := x\<rparr>)"
  by (simp add: handles_ok_def)

lemma handles_ok_playNextNote:
  assumes "handles_ok s"
  shows "handles_ok (playNextNote r mi ci ri s)"
proof (cases "isPlaying s")
  case False
  then show ?thesis using assms by (simp add: playNextNote_def)
next
  case playing: True
  show ?thesis
  proof (cases "currentComposition s")
    case None
    then show ?thesis using assms by (simp add: playNextNote_def)
  next
    case (Some c)
    let ?n = "if mi < length (melody c) then melody c ! mi else None"
    let ?s1 = "pressKey ?n s"
    have h1: "handles_ok ?s1"
      using _ _ assms by (rule handles_ok_cong) (simp_all add: pressKey_fields)
    show ?thesis
    proof (cases "chordStep r ?n ci c ?s1")
      case None
      then show ?thesis using playing Some h1 by (simp add: playNextNote_def Let_def)
    next
      case cs: (Some p)
      obtain s2 ci' where p: "p = (s2, ci')" by (cases p)
      have h2: "handles_ok s2" using h1 cs [unfolded p] by (rule handles_ok_chordStep)
      show ?thesis
      proof (cases "rhythmPattern c")
        case None
        then show ?thesis using playing Some cs p h2 by (simp add: playNextNote_def Let_def)
      next
        case rh: (Some rh)
        show ?thesis
        proof (cases "ri < length rh")
          case False
          then show ?thesis using playing Some cs p h2 rh by (simp add: playNextNote_def Let_def)
        next
          case True
          let ?s3 = "snd (setTimeout (ReleaseMelodyNote ?n) (real (rh ! ri) * 0.8) s2)"
          let ?tick = "PlayNextNote ((mi + 1) mod length (melody c)) ci' ((ri + 1) mod length rh)"
          have "handles_ok ?s3" using h2 by (rule handles_ok_setTimeout)
          then have "handles_ok (snd (setTimeout ?tick (real (rh ! ri)) ?s3))"
            by (rule handles_ok_setTimeout)
          then have "handles_ok ((snd (setTimeout ?tick (real (rh ! ri)) ?s3))
              \<lparr>intervalId := Some (fst (setTimeout ?tick (real (rh ! ri)) ?s3))\<rparr>)"
            by (rule handles_ok_intervalId)
          then show ?thesis
            using playing Some cs p rh True by (simp add: playNextNote_def Let_def split_beta)
        qed
      qed
    qed
  qed
qed

lemma handles_ok_stop: "handles_ok s \<Longrightarrow> handles_ok (stop s)"
  by (auto simp: stop_def Let_def clearTimeout_def handles_ok_def distinct_map_filter
      split: option.splits)

lemma handles_ok_compose:
  assumes "handles_ok s"
  shows "handles_ok (compose moodKey rnd r s)"
proof -
  let ?s1 = "if isPlaying s then stop s else s"
  have h1: "handles_ok ?s1" using assms by (simp add: handles_ok_stop)
  show ?thesis
  proof (cases "map_of moodConfigs moodKey")
    case None
    then show ?thesis using h1 by (simp add: compose_def Let_def)
  next
    case (Some config)
    let ?s2 = "?s1\<lparr>currentMood := Some config, isPlaying := True\<rparr>"
    have h2: "handles_ok ?s2" using _ _ h1 by (rule handles_ok_cong) simp_all
    show ?thesis
    proof (cases "generateMelody config rnd")
      case None
      then show ?thesis using Some h2 by (simp add: compose_def Let_def)
    next
      case mel: (Some mel)
      let ?c = "\<lparr>melody = mel, chords = map_of chordProgressions (progression config),
                 rhythmPattern = map_of rhythms (rhythm config), comp_tempo = tempo config\<rparr>"
      have "handles_ok (?s2\<lparr>currentComposition := Some ?c\<rparr>)"
        using _ _ h2 by (rule handles_ok_cong) simp_all
      then have "handles_ok (playNextNote r 0 0 0 (?s2\<lparr>currentComposition := Some ?c\<rparr>))"
        by (rule handles_ok_playNextNote)
      then show ?thesis using Some mel by (simp add: compose_def Let_def playComposition_def)
    qed
  qed
qed

lemma handles_ok_fire:
  assumes "handles_ok s"
  shows "handles_ok (fire h r s)"
proof (cases "find (\<lambda>t. fst t = h) (timers s)")
  case None
  then show ?thesis using assms by (simp add: fire_def)
next
  case (Some t)
  obtain h' d cb where t: "t = (h', d, cb)" by (cases t)
  let ?s1 = "s\<lparr>timers := filter (\<lambda>t. fst t \<noteq> h) (timers s)\<rparr>"
  have h1: "handles_ok ?s1" using assms by (rule handles_ok_filter) simp_all
  show ?thesis
  proof (cases cb)
    case (PlayNextNote mi ci ri)
    then show ?thesis using Some t handles_ok_playNextNote [OF h1] by (simp add: fire_def)
  next
    case (PressChordNote n)
    have "handles_ok (pressKey (Some n) ?s1)"
      using _ _ h1 by (rule handles_ok_cong) (simp_all add: pressKey_fields)
    then show ?thesis using Some t PressChordNote by (simp add: fire_def)
  next
    case (ReleaseMelodyNote n)
    have "handles_ok (releaseKey n ?s1)"
      using _ _ h1 by (rule handles_ok_cong) (simp_all add: releaseKey_fields)
    then show ?thesis using Some t ReleaseMelodyNote by (simp add: fire_def)
  qed
qed

lemma handles_ok_run: "handles_ok s \<Longrightarrow> handles_ok (run evs s)"
  unfolding run_def
proof (induction evs arbitrary: s)
  case Nil
  then show ?case by simp
next
  case (Cons e evs)
  have "handles_ok (step e s)"
    using Cons.prems by (cases e) (simp_all add: handles_ok_compose handles_ok_stop handles_ok_fire)
  then show ?case by (simp add: Cons.IH)
qed

lemma handles_ok_newComposer: "handles_ok newComposer"
  by (simp add: handles_ok_def newComposer_def)

lemma find_by_handle:
  "distinct (map fst ts) \<Longrightarrow> t \<in> set ts \<Longrightarrow> find (\<lambda>u. fst u = fst t) ts = Some t"
  by (induction ts) (auto simp: rev_image_eqI)

text \<open>A pending timer that fires is taken off the list and its callback runs.\<close>

lemma fire_runs_callback:
  assumes "handles_ok s" "t \<in> set (timers s)"
  shows "case snd (snd t) of
           PlayNextNote mi ci ri \<Rightarrow>
             fire (fst t) r s =
               playNextNote r mi ci ri (s\<lparr>timers := filter (\<lambda>u. fst u \<noteq> fst t) (timers s)\<rparr>)
         | PressChordNote n \<Rightarrow>
             calls (fire (fst t) r s) = calls s @ [PressKey (Some n)] \<and>
             timers (fire (fst t) r s) = filter (\<lambda>u. fst u \<noteq> fst t) (timers s)
         | ReleaseMelodyNote n \<Rightarrow>
             calls (fire (fst t) r s) = calls s @ [ReleaseKey n] \<and>
             timers (fire (fst t) r s) = filter (\<lambda>u. fst u \<noteq> fst t) (timers s)"
proof -
  from assms have f: "find (\<lambda>u. fst u = fst t) (timers s) = Some t"
    by (intro find_by_handle) (simp_all add: handles_ok_def)
  obtain h d cb where t: "t = (h, d, cb)" by (cases t)
  show ?thesis
    using f unfolding t
    by (cases cb) (simp_all add: fire_def pressKey_fields releaseKey_fields)
qed

subsection \<open>The tick contract\<close>

lemma scheduleChord_new:
  "\<exists>new. timers (scheduleChord n chord s) = timers s @ new \<and>
         map snd new = map (\<lambda>cn. (50, PressChordNote cn)) (filter (\<lambda>cn. Some cn \<noteq> n) chord)"
proof -
  from scheduleChord_prefix [of n chord s] obtain new where
    new: "timers (scheduleChord n chord s) = timers s @ new" by blast
  have "map snd (timers s) @ map snd new =
      map snd (timers s) @ map (\<lambda>cn. (50, PressChordNote cn)) (filter (\<lambda>cn. Some cn \<noteq> n) chord)"
    using scheduleChord_timers [of n chord s] unfolding new by simp
  then have "map snd new = map (\<lambda>cn. (50, PressChordNote cn)) (filter (\<lambda>cn. Some cn \<noteq> n) chord)"
    by simp
  with new show ?thesis by blast
qed

lemma chord_timers_no_tick:
  assumes "map snd newc = map (\<lambda>cn. (50 :: real, PressChordNote cn)) xs"
  shows "filter (\<lambda>t. is_tick (snd (snd t))) newc = []"
proof -
  have "\<not> is_tick (snd (snd t))" if "t \<in> set newc" for t
  proof -
    from that have "snd t \<in> set (map snd newc)" by simp
    then show ?thesis unfolding assms by auto
  qed
  then show ?thesis by (simp add: filter_empty_conv)
qed

lemma tick_timers:
  assumes "isPlaying s" "currentComposition s = Some c" "chords c = Some chs"
    "rhythmPattern c = Some rh" "mi < length (melody c)" "ci < length chs" "ri < length rh"
  obtains new where
    "timers (playNextNote r mi ci ri s) = timers s @ new"
    "map snd new =
       (if r > 0.7
        then map (\<lambda>chordNote. (50, PressChordNote chordNote))
               (filter (\<lambda>chordNote. Some chordNote \<noteq> melody c ! mi) (chs ! ci))
        else []) @
       [(real (rh ! ri) * 0.8, ReleaseMelodyNote (melody c ! mi)),
        (real (rh ! ri),
         PlayNextNote ((mi + 1) mod length (melody c))
           (if r > 0.7 then (ci + 1) mod length chs else ci)
           ((ri + 1) mod length rh))]"
    "intervalId (playNextNote r mi ci ri s) = Some (fst (last new))"
    "map fst (filter (\<lambda>t. is_tick (snd (snd t))) new) = [fst (last new)]"
proof (cases "r > 0.7")
  case True
  let ?n = "melody c ! mi"
  from scheduleChord_new [of ?n "chs ! ci" "pressKey ?n s"] obtain newc where
    newc: "timers (scheduleChord ?n (chs ! ci) (pressKey ?n s)) = timers s @ newc"
      "map snd newc = map (\<lambda>cn. (50, PressChordNote cn)) (filter (\<lambda>cn. Some cn \<noteq> ?n) (chs ! ci))"
    by (auto simp: pressKey_fields)
  note nt = chord_timers_no_tick [OF newc(2)]
  let ?s2 = "scheduleChord ?n (chs ! ci) (pressKey ?n s)"
  let ?new = "newc @ [(nextTimer ?s2, real (rh ! ri) * 0.8, ReleaseMelodyNote ?n),
      (Suc (nextTimer ?s2), real (rh ! ri),
       PlayNextNote ((mi + 1) mod length (melody c)) ((ci + 1) mod length chs) ((ri + 1) mod length rh))]"
  have 1: "timers (playNextNote r mi ci ri s) = timers s @ ?new"
    unfolding playNextNote_complete [OF assms]
    using True by (simp add: Let_def setTimeout_fields chordTriggered_def newc(1))
  have 2: "map snd ?new =
       (if r > 0.7
        then map (\<lambda>chordNote. (50, PressChordNote chordNote))
               (filter (\<lambda>chordNote. Some chordNote \<noteq> melody c ! mi) (chs ! ci))
        else []) @
       [(real (rh ! ri) * 0.8, ReleaseMelodyNote (melody c ! mi)),
        (real (rh ! ri),
         PlayNextNote ((mi + 1) mod length (melody c))
           (if r > 0.7 then (ci + 1) mod length chs else ci)
           ((ri + 1) mod length rh))]"
    using True newc(2) by simp
  have 3: "intervalId (playNextNote r mi ci ri s) = Some (fst (last ?new))"
    unfolding playNextNote_complete [OF assms]
    using True by (simp add: Let_def setTimeout_fields chordTriggered_def)
  have 4: "map fst (filter (\<lambda>t. is_tick (snd (snd t))) ?new) = [fst (last ?new)]"
    using nt by simp
  show ?thesis by (rule that [OF 1 2 3 4])
next
  case False
  let ?n = "melody c ! mi"
  let ?s2 = "pressKey ?n s"
  let ?new = "[(nextTimer ?s2, real (rh ! ri) * 0.8, ReleaseMelodyNote ?n),
      (Suc (nextTimer ?s2), real (rh ! ri),
       PlayNextNote ((mi + 1) mod length (melody c)) ci ((ri + 1) mod length rh))]"
  have 1: "timers (playNextNote r mi ci ri s) = timers s @ ?new"
    unfolding playNextNote_complete [OF assms]
    using False by (simp add: Let_def setTimeout_fields chordTriggered_def pressKey_fields)
  have 2: "map snd ?new =
       (if r > 0.7
        then map (\<lambda>chordNote. (50, PressChordNote chordNote))
               (filter (\<lambda>chordNote. Some chordNote \<noteq> melody c ! mi) (chs ! ci))
        else []) @
       [(real (rh ! ri) * 0.8, ReleaseMelodyNote (melody c ! mi)),
        (real (rh ! ri),
         PlayNextNote ((mi + 1) mod length (melody c))
           (if r > 0.7 then (ci + 1) mod length chs else ci)
           ((ri + 1) mod length rh))]"
    using False by simp
  have 3: "intervalId (playNextNote r mi ci ri s) = Some (fst (last ?new))"
    unfolding playNextNote_complete [OF assms]
    using False by (simp add: Let_def setTimeout_fields chordTriggered_def)
  have 4: "map fst (filter (\<lambda>t. is_tick (snd (snd t))) ?new) = [fst (last ?new)]"
    by simp
  show ?thesis by (rule that [OF 1 2 3 4])
qed

lemma tick_fields:
  assumes "isPlaying s" "currentComposition s = Some c" "chords c = Some chs"
    "rhythmPattern c = Some rh" "mi < length (melody c)" "ci < length chs" "ri < length rh"
  shows "calls (playNextNote r mi ci ri s) = calls s @ [PressKey (melody c ! mi)]"
    "isPlaying (playNextNote r mi ci ri s)" "currentComposition (playNextNote r mi ci ri s) = Some c"
  unfolding playNextNote_complete [OF assms]
  using assms(1,2)
  by (simp_all add: Let_def setTimeout_fields pressKey_fields scheduleChord_fields)

lemma tick_effect:
  assumes h: "handles_ok s" and q: "pendingTicks s = []" and ready: "tick_ready s mi ci ri"
  shows "\<exists>c chs rh new.
     currentComposition s = Some c \<and> chords c = Some chs \<and> rhythmPattern c = Some rh \<and>
     mi < length (melody c) \<and> ci < length chs \<and> ri < length rh \<and>
     calls (playNextNote r mi ci ri s) = calls s @ [PressKey (melody c ! mi)] \<and>
     timers (playNextNote r mi ci ri s) = timers s @ new \<and>
     map snd new =
       (if r > 0.7
        then map (\<lambda>chordNote. (50, PressChordNote chordNote))
               (filter (\<lambda>chordNote. Some chordNote \<noteq> melody c ! mi) (chs ! ci))
        else []) @
       [(real (rh ! ri) * 0.8, ReleaseMelodyNote (melody c ! mi)),
        (real (rh ! ri),
         PlayNextNote ((mi + 1) mod length (melody c))
           (if r > 0.7 then (ci + 1) mod length chs else ci)
           ((ri + 1) mod length rh))] \<and>
     intervalId (playNextNote r mi ci ri s) = Some (fst (last new)) \<and>
     pendingTicks (playNextNote r mi ci ri s) = [fst (last new)] \<and>
     isPlaying (playNextNote r mi ci ri s) \<and>
     currentComposition (playNextNote r mi ci ri s) = Some c \<and>
     (\<forall>t \<in> set new.
        case snd (snd t) of
          PlayNextNote mi' ci' ri' \<Rightarrow>
            fire (fst t) r' (playNextNote r mi ci ri s) =
              playNextNote r' mi' ci' ri'
                ((playNextNote r mi ci ri s)
                   \<lparr>timers := filter (\<lambda>u. fst u \<noteq> fst t) (timers (playNextNote r mi ci ri s))\<rparr>)
        | PressChordNote n \<Rightarrow>
            calls (fire (fst t) r' (playNextNote r mi ci ri s)) =
              calls (playNextNote r mi ci ri s) @ [PressKey (Some n)] \<and>
            timers (fire (fst t) r' (playNextNote r mi ci ri s)) =
              filter (\<lambda>u. fst u \<noteq> fst t) (timers (playNextNote r mi ci ri s))
        | ReleaseMelodyNote n \<Rightarrow>
            calls (fire (fst t) r' (playNextNote r mi ci ri s)) =
              calls (playNextNote r mi ci ri s) @ [ReleaseKey n] \<and>
            timers (fire (fst t) r' (playNextNote r mi ci ri s)) =
              filter (\<lambda>u. fst u \<noteq> fst t) (timers (playNextNote r mi ci ri s)))"
proof -
  from ready obtain c chs rh where c: "isPlaying s" "currentComposition s = Some c"
    "chords c = Some chs" "rhythmPattern c = Some rh"
    "mi < length (melody c)" "ci < length chs" "ri < length rh"
    by (auto simp: tick_ready_def)
  let ?s' = "playNextNote r mi ci ri s"
  from c obtain new where
    new: "timers ?s' = timers s @ new"
      "map snd new =
       (if r > 0.7
        then map (\<lambda>chordNote. (50, PressChordNote chordNote))
               (filter (\<lambda>chordNote. Some chordNote \<noteq> melody c ! mi) (chs ! ci))
        else []) @
       [(real (rh ! ri) * 0.8, ReleaseMelodyNote (melody c ! mi)),
        (real (rh ! ri),
         PlayNextNote ((mi + 1) mod length (melody c))
           (if r > 0.7 then (ci + 1) mod length chs else ci)
           ((ri + 1) mod length rh))]"
      "intervalId ?s' = Some (fst (last new))"
      "map fst (filter (\<lambda>t. is_tick (snd (snd t))) new) = [fst (last new)]"
    by (rule tick_timers)
  have pt: "pendingTicks ?s' = [fst (last new)]"
    using pendingTicks_append [OF new(1)] q new(4) by simp
  have h': "handles_ok ?s'" using h by (rule handles_ok_playNextNote)
  have run: "\<forall>t \<in> set new.
        case snd (snd t) of
          PlayNextNote mi' ci' ri' \<Rightarrow>
            fire (fst t) r' ?s' =
              playNextNote r' mi' ci' ri' (?s'\<lparr>timers := filter (\<lambda>u. fst u \<noteq> fst t) (timers ?s')\<rparr>)
        | PressChordNote n \<Rightarrow>
            calls (fire (fst t) r' ?s') = calls ?s' @ [PressKey (Some n)] \<and>
            timers (fire (fst t) r' ?s') = filter (\<lambda>u. fst u \<noteq> fst t) (timers ?s')
        | ReleaseMelodyNote n \<Rightarrow>
            calls (fire (fst t) r' ?s') = calls ?s' @ [ReleaseKey n] \<and>
            timers (fire (fst t) r' ?s') = filter (\<lambda>u. fst u \<noteq> fst t) (timers ?s')"
  proof
    fix t assume "t \<in> set new"
    then have "t \<in> set (timers ?s')" using new(1) by simp
    from fire_runs_callback [OF h' this, of r'] show "case snd (snd t) of
          PlayNextNote mi' ci' ri' \<Rightarrow>
            fire (fst t) r' ?s' =
              playNextNote r' mi' ci' ri' (?s'\<lparr>timers := filter (\<lambda>u. fst u \<noteq> fst t) (timers ?s')\<rparr>)
        | PressChordNote n \<Rightarrow>
            calls (fire (fst t) r' ?s') = calls ?s' @ [PressKey (Some n)] \<and>
            timers (fire (fst t) r' ?s') = filter (\<lambda>u. fst u \<noteq> fst t) (timers ?s')
        | ReleaseMelodyNote n \<Rightarrow>
            calls (fire (fst t) r' ?s') = calls ?s' @ [ReleaseKey n] \<and>
            timers (fire (fst t) r' ?s') = filter (\<lambda>u. fst u \<noteq> fst t) (timers ?s')" .
  qed
  note f = tick_fields [OF c, of r]
  show ?thesis
    by (intro exI [of _ c] exI [of _ chs] exI [of _ rh] exI [of _ new] conjI)
      (rule c(2-7) f new(1-3) pt run)+
qed

text \<open>The tick that a firing timer starts.\<close>

lemma fired_tick:
  assumes "(h, d, PlayNextNote mi ci ri) \<in> set (timers (run evs newComposer))"
  shows "fire h r (run evs newComposer) =
           playNextNote r mi ci ri
             ((run evs newComposer)\<lparr>timers := filter (\<lambda>t. fst t \<noteq> h) (timers (run evs newComposer))\<rparr>)"
    and "handles_ok
           ((run evs newComposer)\<lparr>timers := filter (\<lambda>t. fst t \<noteq> h) (timers (run evs newComposer))\<rparr>)"
    and "pendingTicks
           ((run evs newComposer)\<lparr>timers := filter (\<lambda>t. fst t \<noteq> h) (timers (run evs newComposer))\<rparr>) = []"
    and "tick_ready
           ((run evs newComposer)\<lparr>timers := filter (\<lambda>t. fst t \<noteq> h) (timers (run evs newComposer))\<rparr>)
           mi ci ri"
proof -
  let ?s = "run evs newComposer"
  let ?q = "?s\<lparr>timers := filter (\<lambda>t. fst t \<noteq> h) (timers ?s)\<rparr>"
  have h: "handles_ok ?s" by (rule handles_ok_run [OF handles_ok_newComposer])
  from fire_runs_callback [OF h assms, of r]
  show "fire h r ?s = playNextNote r mi ci ri ?q" by simp
  show "handles_ok ?q" using h by (auto simp: handles_ok_def distinct_map_filter)
  have sl: "single_loop ?s" by (rule run_single_loop [OF single_loop_newComposer])
  from assms have "h \<in> set (pendingTicks ?s)" by (force simp: pendingTicks_def)
  with sl have "pendingTicks ?s = [h]" by (auto simp: single_loop_def)
  moreover have "pendingTicks ?q = filter (\<lambda>x. x \<noteq> h) (pendingTicks ?s)"
    by (rule pendingTicks_remove) simp
  ultimately show "pendingTicks ?q = []" by simp
  from compose_wellformed [OF assms] show "tick_ready ?q mi ci ri" by (simp add: tick_ready_def)
qed

text \<open>The first tick of a composition, run by compose itself.\<close>

lemma first_tick:
  assumes "map_of moodConfigs moodKey = Some config"
  shows "\<exists>s0. compose moodKey rnd r (run evs newComposer) = playNextNote r 0 0 0 s0 \<and>
           handles_ok s0 \<and> pendingTicks s0 = [] \<and> tick_ready s0 0 0 0 \<and>
           calls s0 = calls (run evs newComposer)"
proof -
  let ?s = "run evs newComposer"
  from compose_first_tick [OF assms, of rnd ?s r] obtain s3 where
    s3: "tick_ready s3 0 0 0" "timers s3 = timers (if isPlaying ?s then stop ?s else ?s)"
      "nextTimer s3 = nextTimer ?s" "calls s3 = calls ?s"
      "compose moodKey rnd r ?s = playNextNote r 0 0 0 s3"
    by blast
  have h: "handles_ok ?s" by (rule handles_ok_run [OF handles_ok_newComposer])
  then have "handles_ok (if isPlaying ?s then stop ?s else ?s)" by (simp add: handles_ok_stop)
  with s3(2,3) have h3: "handles_ok s3" by (intro handles_ok_cong [of s3 "if isPlaying ?s then stop ?s else ?s"]) (simp_all add: stop_fields)
  have sl: "single_loop ?s" by (rule run_single_loop [OF single_loop_newComposer])
  from quiet_before_loop [OF sl] s3(2) have p3: "pendingTicks s3 = []"
    by (simp add: quiet_def pendingTicks_def)
  from s3 h3 p3 show ?thesis by blast
qed

lemma spring_run: "run [Compose ''spring'' (\<lambda>i. 0) 0] newComposer = spring_running"
  by (simp add: run_def spring_running_def)

lemma spring_tick_timers:
  "timers (playNextNote 0.9 1 0 1
      (spring_running\<lparr>timers := filter (\<lambda>t. fst t \<noteq> 2) (timers spring_running)\<rparr>)) =
   [(1, 320, ReleaseMelodyNote (Some ''C4'')), (3, 50, PressChordNote ''C4''),
    (4, 50, PressChordNote ''E4''), (5, 50, PressChordNote ''G4''),
    (6, 480, ReleaseMelodyNote (Some ''D4'')), (7, 600, PlayNextNote 2 1 2)]"
  by (simp add: playNextNote_def chordStep_def chordTriggered_def scheduleChord_def
      setTimeout_def pressKey_def Let_def spring_running_fields spring_composition_def)

text \<open>
  Claim C4. A tick is a run of \<open>playNextNote\<close>; it is started either by a pending
  next-tick timer that fires, in a state reached by any sequence of compose calls, stop
  calls and firing timers, or by \<open>compose\<close> itself for a registered mood. In both cases
  (second and fourth part of the theorem) it runs on a state with distinct timer handles, no
  pending tick, a playing composer and cursors inside melody, chords and rhythm. On such a
  state (first part) the tick presses the melody note at the melody cursor at once and makes
  no other call. It sets these timers, in this order: if the draw \<open>r\<close> of the tick is above
  0.7, and only then, one timer of 50 ms for each note of the chord at the chord cursor
  other than the melody note; one timer of \<open>rhythm[cursor] * 0.8\<close> ms; one timer of
  \<open>rhythm[cursor]\<close> ms, whose handle is stored in \<open>intervalId\<close> and which is the only
  pending tick. When one of these timers fires it leaves the list of pending timers and
  its callback runs: a chord timer presses its chord note, the second timer releases the
  melody note, and the last timer runs the next tick, with the melody and rhythm cursors
  advanced by one modulo the length of melody and rhythm, and the chord cursor advanced by
  one modulo the number of chords if the chord was triggered, unchanged otherwise. The
  same holds whenever a pending timer fires later, in any state reached (third part). The
  draws in [0, 1) that trigger the chord are those of the interval (0.7, 1), of length 0.3.
\<close>

theorem tick_contract:
  "(handles_ok s \<and> pendingTicks s = [] \<and> tick_ready s mi ci ri \<longrightarrow>
     (\<exists>c chs rh new.
        currentComposition s = Some c \<and> chords c = Some chs \<and> rhythmPattern c = Some rh \<and>
        mi < length (melody c) \<and> ci < length chs \<and> ri < length rh \<and>
        calls (playNextNote r mi ci ri s) = calls s @ [PressKey (melody c ! mi)] \<and>
        timers (playNextNote r mi ci ri s) = timers s @ new \<and>
        map snd new =
          (if r > 0.7
           then map (\<lambda>chordNote. (50, PressChordNote chordNote))
                  (filter (\<lambda>chordNote. Some chordNote \<noteq> melody c ! mi) (chs ! ci))
           else []) @
          [(real (rh ! ri) * 0.8, ReleaseMelodyNote (melody c ! mi)),
           (real (rh ! ri),
            PlayNextNote ((mi + 1) mod length (melody c))
              (if r > 0.7 then (ci + 1) mod length chs else ci)
              ((ri + 1) mod length rh))] \<and>
        intervalId (playNextNote r mi ci ri s) = Some (fst (last new)) \<and>
        pendingTicks (playNextNote r mi ci ri s) = [fst (last new)] \<and>
        isPlaying (playNextNote r mi ci ri s) \<and>
        currentComposition (playNextNote r mi ci ri s) = Some c \<and>
        (\<forall>t \<in> set new.
           case snd (snd t) of
             PlayNextNote mi' ci' ri' \<Rightarrow>
               fire (fst t) r' (playNextNote r mi ci ri s) =
                 playNextNote r' mi' ci' ri'
                   ((playNextNote r mi ci ri s)
                      \<lparr>timers := filter (\<lambda>u. fst u \<noteq> fst t) (timers (playNextNote r mi ci ri s))\<rparr>)
           | PressChordNote n \<Rightarrow>
               calls (fire (fst t) r' (playNextNote r mi ci ri s)) =
                 calls (playNextNote r mi ci ri s) @ [PressKey (Some n)] \<and>
               timers (fire (fst t) r' (playNextNote r mi ci ri s)) =
                 filter (\<lambda>u. fst u \<noteq> fst t) (timers (playNextNote r mi ci ri s))
           | ReleaseMelodyNote n \<Rightarrow>
               calls (fire (fst t) r' (playNextNote r mi ci ri s)) =
                 calls (playNextNote r mi ci ri s) @ [ReleaseKey n] \<and>
               timers (fire (fst t) r' (playNextNote r mi ci ri s)) =
                 filter (\<lambda>u. fst u \<noteq> fst t) (timers (playNextNote r mi ci ri s))))) \<and>
   ((h, d, PlayNextNote mi ci ri) \<in> set (timers (run evs newComposer)) \<longrightarrow>
      fire h r (run evs newComposer) =
        playNextNote r mi ci ri
          ((run evs newComposer)\<lparr>timers := filter (\<lambda>t. fst t \<noteq> h) (timers (run evs newComposer))\<rparr>) \<and>
      handles_ok
        ((run evs newComposer)\<lparr>timers := filter (\<lambda>t. fst t \<noteq> h) (timers (run evs newComposer))\<rparr>) \<and>
      pendingTicks
        ((run evs newComposer)\<lparr>timers := filter (\<lambda>t. fst t \<noteq> h) (timers (run evs newComposer))\<rparr>) = [] \<and>
      tick_ready
        ((run evs newComposer)\<lparr>timers := filter (\<lambda>t. fst t \<noteq> h) (timers (run evs newComposer))\<rparr>)
        mi ci ri) \<and>
   (t \<in> set (timers (run evs newComposer)) \<longrightarrow>
      (case snd (snd t) of
         PlayNextNote mi' ci' ri' \<Rightarrow>
           fire (fst t) r (run evs newComposer) =
             playNextNote r mi' ci' ri'
               ((run evs newComposer)
                  \<lparr>timers := filter (\<lambda>u. fst u \<noteq> fst t) (timers (run evs newComposer))\<rparr>)
       | PressChordNote n \<Rightarrow>
           calls (fire (fst t) r (run evs newComposer)) =
             calls (run evs newComposer) @ [PressKey (Some n)] \<and>
           timers (fire (fst t) r (run evs newComposer)) =
             filter (\<lambda>u. fst u \<noteq> fst t) (timers (run evs newComposer))
       | ReleaseMelodyNote n \<Rightarrow>
           calls (fire (fst t) r (run evs newComposer)) =
             calls (run evs newComposer) @ [ReleaseKey n] \<and>
           timers (fire (fst t) r (run evs newComposer)) =
             filter (\<lambda>u. fst u \<noteq> fst t) (timers (run evs newComposer)))) \<and>
   (map_of moodConfigs moodKey = Some config \<longrightarrow>
      (\<exists>s0. compose moodKey rnd r (run evs newComposer) = playNextNote r 0 0 0 s0 \<and>
            handles_ok s0 \<and> pendingTicks s0 = [] \<and> tick_ready s0 0 0 0 \<and>
            calls s0 = calls (run evs newComposer))) \<and>
   (chordTriggered r \<longleftrightarrow> r > 0.7) \<and>
   {x. 0 \<le> x \<and> x < 1 \<and> chordTriggered x} = {7 / 10 <..< 1}"
proof (intro conjI impI)
  assume "handles_ok s \<and> pendingTicks s = [] \<and> tick_ready s mi ci ri"
  then have a: "handles_ok s" "pendingTicks s = []" "tick_ready s mi ci ri" by simp_all
  show "\<exists>c chs rh new.
        currentComposition s = Some c \<and> chords c = Some chs \<and> rhythmPattern c = Some rh \<and>
        mi < length (melody c) \<and> ci < length chs \<and> ri < length rh \<and>
        calls (playNextNote r mi ci ri s) = calls s @ [PressKey (melody c ! mi)] \<and>
        timers (playNextNote r mi ci ri s) = timers s @ new \<and>
        map snd new =
          (if r > 0.7
           then map (\<lambda>chordNote. (50, PressChordNote chordNote))
                  (filter (\<lambda>chordNote. Some chordNote \<noteq> melody c ! mi) (chs ! ci))
           else []) @
          [(real (rh ! ri) * 0.8, ReleaseMelodyNote (melody c ! mi)),
           (real (rh ! ri),
            PlayNextNote ((mi + 1) mod length (melody c))
              (if r > 0.7 then (ci + 1) mod length chs else ci)
              ((ri + 1) mod length rh))] \<and>
        intervalId (playNextNote r mi ci ri s) = Some (fst (last new)) \<and>
        pendingTicks (playNextNote r mi ci ri s) = [fst (last new)] \<and>
        isPlaying (playNextNote r mi ci ri s) \<and>
        currentComposition (playNextNote r mi ci ri s) = Some c \<and>
        (\<forall>t \<in> set new.
           case snd (snd t) of
             PlayNextNote mi' ci' ri' \<Rightarrow>
               fire (fst t) r' (playNextNote r mi ci ri s) =
                 playNextNote r' mi' ci' ri'
                   ((playNextNote r mi ci ri s)
                      \<lparr>timers := filter (\<lambda>u. fst u \<noteq> fst t) (timers (playNextNote r mi ci ri s))\<rparr>)
           | PressChordNote n \<Rightarrow>
               calls (fire (fst t) r' (playNextNote r mi ci ri s)) =
                 calls (playNextNote r mi ci ri s) @ [PressKey (Some n)] \<and>
               timers (fire (fst t) r' (playNextNote r mi ci ri s)) =
                 filter (\<lambda>u. fst u \<noteq> fst t) (timers (playNextNote r mi ci ri s))
           | ReleaseMelodyNote n \<Rightarrow>
               calls (fire (fst t) r' (playNextNote r mi ci ri s)) =
                 calls (playNextNote r mi ci ri s) @ [ReleaseKey n] \<and>
               timers (fire (fst t) r' (playNextNote r mi ci ri s)) =
                 filter (\<lambda>u. fst u \<noteq> fst t) (timers (playNextNote r mi ci ri s)))"
    by (rule tick_effect [OF a])
next
  assume p: "(h, d, PlayNextNote mi ci ri) \<in> set (timers (run evs newComposer))"
  show "fire h r (run evs newComposer) =
        playNextNote r mi ci ri
          ((run evs newComposer)\<lparr>timers := filter (\<lambda>t. fst t \<noteq> h) (timers (run evs newComposer))\<rparr>)"
    by (rule fired_tick(1) [OF p])
  show "handles_ok
        ((run evs newComposer)\<lparr>timers := filter (\<lambda>t. fst t \<noteq> h) (timers (run evs newComposer))\<rparr>)"
    by (rule fired_tick(2) [OF p])
  show "pendingTicks
        ((run evs newComposer)\<lparr>timers := filter (\<lambda>t. fst t \<noteq> h) (timers (run evs newComposer))\<rparr>) = []"
    by (rule fired_tick(3) [OF p])
  show "tick_ready
        ((run evs newComposer)\<lparr>timers := filter (\<lambda>t. fst t \<noteq> h) (timers (run evs newComposer))\<rparr>)
        mi ci ri"
    by (rule fired_tick(4) [OF p])
next
  assume "t \<in> set (timers (run evs newComposer))"
  then show "case snd (snd t) of
         PlayNextNote mi' ci' ri' \<Rightarrow>
           fire (fst t) r (run evs newComposer) =
             playNextNote r mi' ci' ri'
               ((run evs newComposer)
                  \<lparr>timers := filter (\<lambda>u. fst u \<noteq> fst t) (timers (run evs newComposer))\<rparr>)
       | PressChordNote n \<Rightarrow>
           calls (fire (fst t) r (run evs newComposer)) =
             calls (run evs newComposer) @ [PressKey (Some n)] \<and>
           timers (fire (fst t) r (run evs newComposer)) =
             filter (\<lambda>u. fst u \<noteq> fst t) (timers (run evs newComposer))
       | ReleaseMelodyNote n \<Rightarrow>
           calls (fire (fst t) r (run evs newComposer)) =
             calls (run evs newComposer) @ [ReleaseKey n] \<and>
           timers (fire (fst t) r (run evs newComposer)) =
             filter (\<lambda>u. fst u \<noteq> fst t) (timers (run evs newComposer))"
    by (rule fire_runs_callback [OF handles_ok_run [OF handles_ok_newComposer]])
next
  assume "map_of moodConfigs moodKey = Some config"
  then show "\<exists>s0. compose moodKey rnd r (run evs newComposer) = playNextNote r 0 0 0 s0 \<and>
            handles_ok s0 \<and> pendingTicks s0 = [] \<and> tick_ready s0 0 0 0 \<and>
            calls s0 = calls (run evs newComposer)"
    by (rule first_tick)
next
  show "chordTriggered r \<longleftrightarrow> r > 0.7" by (simp add: chordTriggered_def)
  show "{x. 0 \<le> x \<and> x < 1 \<and> chordTriggered x} = {7 / 10 <..< 1}"
    by (auto simp: chordTriggered_def)
qed

theorem tick_contract_witness:
  "calls spring_tick = [PressKey (Some ''C4''), PressKey (Some ''D4'')] \<and>
   timers spring_tick =
     [(1, 320, ReleaseMelodyNote (Some ''C4'')), (3, 50, PressChordNote ''C4''),
      (4, 50, PressChordNote ''E4''), (5, 50, PressChordNote ''G4''),
      (6, 480, ReleaseMelodyNote (Some ''D4'')), (7, 600, PlayNextNote 2 1 2)] \<and>
   intervalId spring_tick = Some 7 \<and>
   pendingTicks spring_tick = [7] \<and>
   calls (fire 4 0 spring_tick) =
     [PressKey (Some ''C4''), PressKey (Some ''D4''), PressKey (Some ''E4'')] \<and>
   calls (fire 6 0 spring_tick) =
     [PressKey (Some ''C4''), PressKey (Some ''D4''), ReleaseKey (Some ''D4'')] \<and>
   fire 7 0 spring_tick =
     playNextNote 0 2 1 2 (spring_tick\<lparr>timers := filter (\<lambda>u. fst u \<noteq> 7) (timers spring_tick)\<rparr>) \<and>
   calls (fire 1 0.9 spring_running) = [PressKey (Some ''C4''), ReleaseKey (Some ''C4'')]"
proof -
  let ?q = "spring_running\<lparr>timers := filter (\<lambda>t. fst t \<noteq> 2) (timers spring_running)\<rparr>"
  let ?s' = "playNextNote 0.9 1 0 1 ?q"
  note t = tick_contract [where evs = "[Compose ''spring'' (\<lambda>i. 0) 0]" and h = 2 and d = 400
      and mi = 1 and ci = 0 and ri = 1 and r = "0.9" and r' = 0 and s = ?q
      and t = "(1, 320, ReleaseMelodyNote (Some ''C4''))" and moodKey = "''spring''"
      and rnd = "\<lambda>i. 0", unfolded spring_run]
  have mem: "(2, 400, PlayNextNote 1 0 1) \<in> set (timers spring_running)"
    by (simp add: spring_running_fields)
  note link = t [THEN conjunct2, THEN conjunct1, THEN mp, OF mem]
  have st: "spring_tick = ?s'"
    unfolding spring_tick_def spring_run by (rule link [THEN conjunct1])
  from t [THEN conjunct1, THEN mp, OF link [THEN conjunct2]]
  obtain c chs rh new where
    c: "currentComposition ?q = Some c" "chords c = Some chs" "rhythmPattern c = Some rh"
    and calls: "calls ?s' = calls ?q @ [PressKey (melody c ! 1)]"
    and timers: "timers ?s' = timers ?q @ new"
    and interval: "intervalId ?s' = Some (fst (last new))"
    and pending: "pendingTicks ?s' = [fst (last new)]"
    and fires: "\<forall>t \<in> set new.
           case snd (snd t) of
             PlayNextNote mi' ci' ri' \<Rightarrow>
               fire (fst t) 0 ?s' =
                 playNextNote 0 mi' ci' ri' (?s'\<lparr>timers := filter (\<lambda>u. fst u \<noteq> fst t) (timers ?s')\<rparr>)
           | PressChordNote n \<Rightarrow>
               calls (fire (fst t) 0 ?s') = calls ?s' @ [PressKey (Some n)] \<and>
               timers (fire (fst t) 0 ?s') = filter (\<lambda>u. fst u \<noteq> fst t) (timers ?s')
           | ReleaseMelodyNote n \<Rightarrow>
               calls (fire (fst t) 0 ?s') = calls ?s' @ [ReleaseKey n] \<and>
               timers (fire (fst t) 0 ?s') = filter (\<lambda>u. fst u \<noteq> fst t) (timers ?s')"
    by (elim exE conjE)
  have cc: "c = spring_composition" using c(1) by (simp add: spring_running_fields)
  have 1: "calls spring_tick = [PressKey (Some ''C4''), PressKey (Some ''D4'')]"
    unfolding st calls cc by (simp add: spring_running_fields spring_composition_def)
  have 2: "timers spring_tick =
     [(1, 320, ReleaseMelodyNote (Some ''C4'')), (3, 50, PressChordNote ''C4''),
      (4, 50, PressChordNote ''E4''), (5, 50, PressChordNote ''G4''),
      (6, 480, ReleaseMelodyNote (Some ''D4'')), (7, 600, PlayNextNote 2 1 2)]"
    unfolding st by (rule spring_tick_timers)
  have new: "new = [(3, 50, PressChordNote ''C4''), (4, 50, PressChordNote ''E4''),
      (5, 50, PressChordNote ''G4''), (6, 480, ReleaseMelodyNote (Some ''D4'')),
      (7, 600, PlayNextNote 2 1 2)]"
    using timers unfolding spring_tick_timers by (simp add: spring_running_fields)
  have 3: "intervalId spring_tick = Some 7" unfolding st interval new by simp
  have 4: "pendingTicks spring_tick = [7]" unfolding st pending new by simp
  from fires have 5: "calls (fire 4 0 spring_tick) =
     [PressKey (Some ''C4''), PressKey (Some ''D4''), PressKey (Some ''E4'')]"
    unfolding new st [symmetric] 1 by simp
  from fires have 6: "calls (fire 6 0 spring_tick) =
     [PressKey (Some ''C4''), PressKey (Some ''D4''), ReleaseKey (Some ''D4'')]"
    unfolding new st [symmetric] 1 by simp
  from fires have 7: "fire 7 0 spring_tick =
     playNextNote 0 2 1 2 (spring_tick\<lparr>timers := filter (\<lambda>u. fst u \<noteq> 7) (timers spring_tick)\<rparr>)"
    unfolding new st [symmetric] by simp
  have "(1, 320, ReleaseMelodyNote (Some ''C4'')) \<in> set (timers spring_running)"
    by (simp add: spring_running_fields)
  from t [THEN conjunct2, THEN conjunct2, THEN conjunct1, THEN mp, OF this]
  have 8: "calls (fire 1 0.9 spring_running) = [PressKey (Some ''C4''), ReleaseKey (Some ''C4'')]"
    by (simp add: spring_running_fields)
  from 1 2 3 4 5 6 7 8 show ?thesis by (intro conjI)
qed

subsection \<open>Composing from a text without keywords\<close>

lemma no_keyword_scores:
  assumes "\<forall>(mood, ws) \<in> set moodKeywords. \<forall>w \<in> set ws. \<not> js_includes (toLowerCase t) w"
  shows "\<forall>i < length moodKeywords. moodScore (toLowerCase t) i = 0"
proof (intro allI impI)
  fix i assume "i < length moodKeywords"
  then have "moodKeywords ! i \<in> set moodKeywords" by simp
  with assms have "\<forall>w \<in> set (snd (moodKeywords ! i)). \<not> js_includes (toLowerCase t) w"
    by (auto simp: case_prod_beta)
  then show "moodScore (toLowerCase t) i = 0" by (simp add: moodScore_def score_zero_iff)
qed

lemma peaceful_unregistered: "map_of moodConfigs ''peaceful'' = None"
  by (simp add: moodConfigs_def)

lemma compose_unregistered:
  "map_of moodConfigs moodKey = None \<Longrightarrow>
   compose moodKey rnd r s = (if isPlaying s then stop s else s)"
  by (simp add: compose_def Let_def)

text \<open>
  Claim C8 as stated fails on a playing composer: \<open>xyz\<close> contains no keyword (every score
  is 0) and \<open>analyzeMood\<close> gives \<open>peaceful\<close>, yet composing from it while the epic
  composition is running changes the state: the composer stops playing and its pending
  tick is cancelled.
\<close>

theorem compose_fallback_stops_running_composition:
  "map (moodScore (toLowerCase ''xyz'')) [0..<12] = [0, 0, 0, 0, 0, 0, 0, 0, 0, 0, 0, 0] \<and>
   analyzeMood ''xyz'' = ''peaceful'' \<and>
   isPlaying epic_running \<and> pendingTicks epic_running = [4] \<and>
   \<not> isPlaying (compose (analyzeMood ''xyz'') (\<lambda>i. 0) 0 epic_running) \<and>
   pendingTicks (compose (analyzeMood ''xyz'') (\<lambda>i. 0) 0 epic_running) = [] \<and>
   compose (analyzeMood ''xyz'') (\<lambda>i. 0) 0 epic_running \<noteq> epic_running"
proof -
  have k: "\<forall>(mood, ws) \<in> set moodKeywords. \<forall>w \<in> set ws. \<not> js_includes (toLowerCase ''xyz'') w"
    by (simp add: moodKeywords_def toLowerCase_def lower_char_def)
  have a: "analyzeMood ''xyz'' = ''peaceful''"
    by (rule analyzeMood_no_match [OF no_keyword_scores [OF k]])
  have c: "compose (analyzeMood ''xyz'') (\<lambda>i. 0) 0 epic_running = stop epic_running"
    by (simp add: a compose_unregistered [OF peaceful_unregistered] epic_running_fields)
  have p: "\<not> isPlaying (stop epic_running)" by (simp add: stop_fields)
  have t: "pendingTicks (stop epic_running) = []"
    by (simp add: stop_pendingTicks epic_running_fields)
  have z: "map (moodScore (toLowerCase ''xyz'')) [0..<12] = [0, 0, 0, 0, 0, 0, 0, 0, 0, 0, 0, 0]"
    by (simp add: moodKeywords_def toLowerCase_def lower_char_def score_def moodScore_def upt_rec)
  have "stop epic_running \<noteq> epic_running"
    using p epic_running_fields(1) by auto
  with z a c p t epic_running_fields(1,5) show ?thesis by simp
qed

text \<open>
  Claim C8, amended. If the text contains no keyword of any mood, \<open>analyzeMood\<close> gives
  \<open>peaceful\<close>, which is not a key of the mood configurations, and composing from it starts
  no composition: the result is the state itself when no composition is running, and
  otherwise the state after \<open>stop()\<close>. In both cases the composer is not playing afterwards,
  no timer is added, no call is made on the piano and the stored composition is unchanged.
\<close>

theorem compose_fallback_starts_nothing:
  assumes "\<forall>(mood, ws) \<in> set moodKeywords. \<forall>w \<in> set ws. \<not> js_includes (toLowerCase text) w"
  shows "analyzeMood text = ''peaceful'' \<and>
    map_of moodConfigs (analyzeMood text) = None \<and>
    compose (analyzeMood text) rnd r s = (if isPlaying s then stop s else s) \<and>
    (\<not> isPlaying s \<longrightarrow> compose (analyzeMood text) rnd r s = s) \<and>
    \<not> isPlaying (compose (analyzeMood text) rnd r s) \<and>
    set (timers (compose (analyzeMood text) rnd r s)) \<subseteq> set (timers s) \<and>
    calls (compose (analyzeMood text) rnd r s) = calls s \<and>
    currentComposition (compose (analyzeMood text) rnd r s) = currentComposition s"
proof -
  have a: "analyzeMood text = ''peaceful''"
    by (rule analyzeMood_no_match [OF no_keyword_scores [OF assms]])
  have c: "compose (analyzeMood text) rnd r s = (if isPlaying s then stop s else s)"
    unfolding a by (rule compose_unregistered [OF peaceful_unregistered])
  show ?thesis
    unfolding c using stop_fields(6) [of s] by (simp add: a peaceful_unregistered stop_fields)
qed

theorem compose_fallback_starts_nothing_witness:
  "analyzeMood ''hello world'' = ''peaceful'' \<and>
   compose (analyzeMood ''hello world'') (\<lambda>i. 0) 0 newComposer = newComposer \<and>
   \<not> isPlaying (compose (analyzeMood ''hello world'') (\<lambda>i. 0) 0 spring_running) \<and>
   calls (compose (analyzeMood ''hello world'') (\<lambda>i. 0) 0 spring_running) = [PressKey (Some ''C4'')] \<and>
   compose (analyzeMood ''hello world'') (\<lambda>i. 0) 0 spring_running = stop spring_running"
proof -
  have k: "\<forall>(mood, ws) \<in> set moodKeywords. \<forall>w \<in> set ws. \<not> js_includes (toLowerCase ''hello world'') w"
    by (simp add: moodKeywords_def toLowerCase_def lower_char_def)
  have n: "\<not> isPlaying newComposer" by (simp add: newComposer_def)
  note w1 = compose_fallback_starts_nothing [OF k, of "\<lambda>i. 0" 0 newComposer]
  note w2 = compose_fallback_starts_nothing [OF k, of "\<lambda>i. 0" 0 spring_running]
  from w1 have 1: "analyzeMood ''hello world'' = ''peaceful''" by blast
  from w1 n have 2: "compose (analyzeMood ''hello world'') (\<lambda>i. 0) 0 newComposer = newComposer"
    by blast
  from w2 have 3: "\<not> isPlaying (compose (analyzeMood ''hello world'') (\<lambda>i. 0) 0 spring_running)"
    by blast
  from w2 have "calls (compose (analyzeMood ''hello world'') (\<lambda>i. 0) 0 spring_running) =
      calls spring_running"
    by blast
  then have 4: "calls (compose (analyzeMood ''hello world'') (\<lambda>i. 0) 0 spring_running) =
      [PressKey (Some ''C4'')]"
    by (simp only: spring_running_fields(3))
  from w2 have "compose (analyzeMood ''hello world'') (\<lambda>i. 0) 0 spring_running =
      (if isPlaying spring_running then stop spring_running else spring_running)"
    by blast
  then have 5: "compose (analyzeMood ''hello world'') (\<lambda>i. 0) 0 spring_running = stop spring_running"
    by (simp only: spring_running_fields(1) if_True)
  from 1 2 3 4 5 show ?thesis by (intro conjI)
qed

end
